theory Spec2Isabelle
  imports Complex_Main "HOL-Library.Sublist" "HOL-Library.Multiset"
begin

section \<open>sizeCounter.py: the files, the directory tree and the walk\<close>

text \<open>
  The script walks the working directory with \<^verbatim>\<open>os.walk(".")\<close>, opens every file
  whose name ends with \<^verbatim>\<open>.cs\<close>, reads 20 characters of it as text, and when they
  contain \<^verbatim>\<open>///Countable\<close> adds the file's \<^verbatim>\<open>st_size\<close> to the global
  \<^verbatim>\<open>size\<close> and prints one line. Nothing is caught: an exception ends the run.

  The exceptions the script's own statements can raise: \<^verbatim>\<open>open\<close> and
  \<^verbatim>\<open>f.read(20)\<close> raise an \<^verbatim>\<open>OSError\<close> (missing file, permission) or a
  \<^verbatim>\<open>UnicodeDecodeError\<close> (content that is not text); the true division of an
  integer by 1024 raises \<^verbatim>\<open>OverflowError\<close> when the quotient is beyond the floats;
  \<^verbatim>\<open>print\<close> raises \<^verbatim>\<open>UnicodeEncodeError\<close> when standard output cannot encode
  a character of the line.
\<close>

datatype py_error = OSError | UnicodeDecodeError | OverflowError | UnicodeEncodeError

text \<open>
  A file as the script sees it: its name in the directory listing, what
  \<^verbatim>\<open>open(p, "r")\<close> followed by \<^verbatim>\<open>f.read(20)\<close> gives (an exception, or the text of
  the file, of which \<open>read(20)\<close> returns the first 20 characters), and the
  \<^verbatim>\<open>st_size\<close> that \<^verbatim>\<open>os.stat(p)\<close> reports. An element of the text is one
  character as Python counts them (after decoding and newline translation), not one byte
  of the file; \<^verbatim>\<open>st_size\<close> is the size in bytes and is independent of the text. The
  file system does not change during the run, so \<^verbatim>\<open>os.stat\<close> on a file that was
  just read succeeds.
\<close>

record file_info =
  name :: string
  opened :: "py_error + string"
  st_size :: int

text \<open>
  A directory is the list of its entries in the order the platform enumerates them.
  \<open>Unlisted\<close> is a directory of the tree that \<^verbatim>\<open>os.walk\<close> names among the
  \<^verbatim>\<open>dirnames\<close> of its parent and does not list: \<^verbatim>\<open>scandir\<close> fails on it and the
  \<^verbatim>\<open>OSError\<close> is dropped (\<^verbatim>\<open>onerror\<close> is \<open>None\<close>), or it is a symbolic link
  to a directory (\<^verbatim>\<open>followlinks\<close> is \<open>False\<close>). Its entries are in the tree all
  the same.
\<close>

datatype entry = File file_info | Dir string "entry list" | Unlisted string "entry list"

text \<open>\<^verbatim>\<open>str.endswith\<close>, \<^verbatim>\<open>str.startswith\<close> and the operator \<^verbatim>\<open>in\<close> on strings.\<close>

definition endswith :: "string \<Rightarrow> string \<Rightarrow> bool" where
  "endswith s suf = (length suf \<le> length s \<and> drop (length s - length suf) s = suf)"

definition startswith :: "string \<Rightarrow> string \<Rightarrow> bool" where
  "startswith s pre = (take (length pre) s = pre)"

fun str_in :: "string \<Rightarrow> string \<Rightarrow> bool" where
  "str_in sub [] = (sub = [])"
| "str_in sub (c # cs) = (startswith (c # cs) sub \<or> str_in sub cs)"

text \<open>\<^verbatim>\<open>os.path.join(a, b)\<close> of posixpath, for one component \<open>b\<close>.\<close>

definition path_join :: "string \<Rightarrow> string \<Rightarrow> string" where
  "path_join a b =
     (if startswith b ''/'' \<or> a = [] then b
      else if endswith a ''/'' then a @ b
      else a @ ''/'' @ b)"

text \<open>
  \<^verbatim>\<open>os.walk(top)\<close>, top-down: the triple of the directory itself (its path, the names
  of its subdirectories, its other entries), then the walk of each subdirectory in the
  order of the listing; a subdirectory that cannot be listed, or that is a symbolic link,
  gives no triple and raises nothing. The script reads the path and the files of each
  triple. The first argument of \<open>walk\<close> is the path of a directory and the second its
  listing: for the working directory, \<open>''.''\<close> and what \<^verbatim>\<open>scandir\<close> returns for it.
\<close>

fun dirnames_of :: "entry list \<Rightarrow> string list" where
  "dirnames_of [] = []"
| "dirnames_of (File f # es) = dirnames_of es"
| "dirnames_of (Dir d sub # es) = d # dirnames_of es"
| "dirnames_of (Unlisted d sub # es) = d # dirnames_of es"

fun filenames_of :: "entry list \<Rightarrow> file_info list" where
  "filenames_of [] = []"
| "filenames_of (File f # es) = f # filenames_of es"
| "filenames_of (Dir d sub # es) = filenames_of es"
| "filenames_of (Unlisted d sub # es) = filenames_of es"

fun walk :: "string \<Rightarrow> entry list \<Rightarrow> (string \<times> string list \<times> file_info list) list"
  and walk_subdirs :: "string \<Rightarrow> entry list \<Rightarrow> (string \<times> string list \<times> file_info list) list"
where
  "walk path es = (path, dirnames_of es, filenames_of es) # walk_subdirs path es"
| "walk_subdirs path [] = []"
| "walk_subdirs path (File f # es) = walk_subdirs path es"
| "walk_subdirs path (Dir d sub # es) = walk (path_join path d) sub @ walk_subdirs path es"
| "walk_subdirs path (Unlisted d sub # es) = walk_subdirs path es"

section \<open>The printed numbers: true division by 1024 and the format \<open>.2g\<close>\<close>

text \<open>
  \<^verbatim>\<open>n / 1024\<close> on a Python integer is the float nearest to the quotient (ties to the
  even significand). 1024 is a power of two, so the float is \<open>m / 1024\<close> for the integer
  \<open>m\<close> that rounds \<open>|n|\<close> to 53 significant bits; the division raises
  \<^verbatim>\<open>OverflowError\<close> when the float would reach \<open>2 ^ 1024\<close>.
\<close>

fun bit_length :: "nat \<Rightarrow> nat" where
  "bit_length n = (if n = 0 then 0 else Suc (bit_length (n div 2)))"

declare bit_length.simps [simp del]

definition round_half_even :: "nat \<Rightarrow> nat \<Rightarrow> nat" where
  "round_half_even a b =
     (let q = a div b; r = a mod b
      in if 2 * r < b then q
         else if b < 2 * r then q + 1
         else if even q then q else q + 1)"

definition round53 :: "nat \<Rightarrow> nat" where
  "round53 n =
     (if bit_length n \<le> 53 then n
      else let sh = bit_length n - 53 in round_half_even n (2 ^ sh) * 2 ^ sh)"

definition truediv_1024 :: "int \<Rightarrow> py_error + nat" where
  "truediv_1024 n =
     (let m = round53 (nat \<bar>n\<bar>)
      in if 2 ^ 1034 \<le> m then Inl OverflowError else Inr m)"

text \<open>
  The format \<^verbatim>\<open>.2g\<close> of the float \<open>m / 1024\<close>: the value is rounded to two
  significant decimal digits (ties to even, on the exact value of the float); with \<open>X\<close>
  its decimal exponent, the fixed notation is used when \<open>-4 \<le> X < 2\<close> and the
  scientific one otherwise; a zero second digit is dropped after the point.
\<close>

fun decimal_digits :: "nat \<Rightarrow> nat" where
  "decimal_digits n = (if n < 10 then 1 else Suc (decimal_digits (n div 10)))"

declare decimal_digits.simps [simp del]

definition digit_char :: "nat \<Rightarrow> char" where
  "digit_char d =
     (if d = 0 then CHR ''0'' else if d = 1 then CHR ''1'' else if d = 2 then CHR ''2''
      else if d = 3 then CHR ''3'' else if d = 4 then CHR ''4'' else if d = 5 then CHR ''5''
      else if d = 6 then CHR ''6'' else if d = 7 then CHR ''7'' else if d = 8 then CHR ''8''
      else CHR ''9'')"

fun str_nat :: "nat \<Rightarrow> string" where
  "str_nat n = (if n < 10 then [digit_char n] else str_nat (n div 10) @ [digit_char (n mod 10)])"

declare str_nat.simps [simp del]

definition decimal_exponent :: "nat \<Rightarrow> int" where
  "decimal_exponent m =
     (if 1024 \<le> m then int (decimal_digits (m div 1024)) - 1
      else if 1024 \<le> 10 * m then - 1
      else if 1024 \<le> 100 * m then - 2
      else if 1024 \<le> 1000 * m then - 3
      else - 4)"

definition two_digits :: "nat \<Rightarrow> int \<Rightarrow> nat" where
  "two_digits m X =
     (if 1 \<le> X then round_half_even m (1024 * 10 ^ nat (X - 1))
      else round_half_even (m * 10 ^ nat (1 - X)) 1024)"

definition render_g :: "nat \<Rightarrow> int \<Rightarrow> string" where
  "render_g r X =
     (let d1 = digit_char (r div 10);
          frac = (if r mod 10 = 0 then [] else [digit_char (r mod 10)]);
          e = str_nat (nat \<bar>X\<bar>)
      in if X < - 4 \<or> 2 \<le> X then
           [d1] @ (if frac = [] then [] else ''.'' @ frac) @ ''e'' @
           (if X < 0 then ''-'' else ''+'') @ (if length e < 2 then ''0'' @ e else e)
         else if X = 1 then [d1, digit_char (r mod 10)]
         else if X = 0 then [d1] @ (if frac = [] then [] else ''.'' @ frac)
         else if X = - 1 then ''0.'' @ [d1] @ frac
         else if X = - 2 then ''0.0'' @ [d1] @ frac
         else if X = - 3 then ''0.00'' @ [d1] @ frac
         else ''0.000'' @ [d1] @ frac)"

definition format_2g :: "bool \<Rightarrow> nat \<Rightarrow> string" where
  "format_2g neg m =
     (if m = 0 then ''0''
      else let X = decimal_exponent m; r = two_digits m X
           in (if neg then ''-'' else []) @
              (if r = 100 then render_g 10 (X + 1) else render_g r X))"

text \<open>\<^verbatim>\<open>f"{n / 1024 :.2g}"\<close> for an integer \<open>n\<close>.\<close>

definition kib_2g :: "int \<Rightarrow> py_error + string" where
  "kib_2g n =
     (case truediv_1024 n of
        Inl e \<Rightarrow> Inl e
      | Inr m \<Rightarrow> Inr (format_2g (n < 0) m))"

text \<open>
  The argument of \<^verbatim>\<open>print\<close>: the f-string evaluates \<^verbatim>\<open>stats.st_size / 1024\<close>
  first, then \<^verbatim>\<open>size / 1024\<close>.
\<close>

definition line_of :: "string \<Rightarrow> int \<Rightarrow> int \<Rightarrow> py_error + string" where
  "line_of p sz tot =
     (case kib_2g sz of
        Inl e \<Rightarrow> Inl e
      | Inr a \<Rightarrow>
          (case kib_2g tot of
             Inl e \<Rightarrow> Inl e
           | Inr b \<Rightarrow> Inr (''File '' @ p @ '': '' @ a @ '' KiB, so far at: '' @ b @ '' KiB'')))"

section \<open>The run\<close>

text \<open>
  The state of the run: the global \<^verbatim>\<open>size\<close> (here \<open>size_acc\<close>: \<open>size\<close> is a
  constant of HOL) and the lines written to standard output. A step returns the
  exception it raised, if any, with the state at that moment.
\<close>

record state =
  size_acc :: int
  stdout :: "string list"

definition marker :: string where
  "marker = ''///Countable''"

text \<open>
  \<^verbatim>\<open>print(line)\<close>. Standard output encodes the line before it writes it: the call
  raises \<^verbatim>\<open>UnicodeEncodeError\<close>, and writes nothing, when the line has a character
  that the encoding of standard output does not have. Every encoding has the ASCII
  characters; \<open>enc\<close> tells which of the other characters it has. (The path is the
  only part of the line that can hold such a character.)
\<close>

type_synonym encoding = "char \<Rightarrow> bool"

definition is_ascii :: "char \<Rightarrow> bool" where
  "is_ascii c = (\<not> digit7 c)"

definition encodable :: "encoding \<Rightarrow> string \<Rightarrow> bool" where
  "encodable enc l = list_all (\<lambda>c. is_ascii c \<or> enc c) l"

definition print :: "encoding \<Rightarrow> string \<Rightarrow> state \<Rightarrow> py_error option \<times> state" where
  "print enc l s =
     (if encodable enc l then (None, s\<lparr>stdout := stdout s @ [l]\<rparr>)
      else (Some UnicodeEncodeError, s))"

text \<open>The body of the inner loop, lines 7 to 13, for one file of a directory.\<close>

definition visit_file :: "encoding \<Rightarrow> string \<Rightarrow> file_info \<Rightarrow> state \<Rightarrow> py_error option \<times> state" where
  "visit_file enc dirpath f s =
     (if endswith (name f) ''.cs'' then
        let p = path_join dirpath (name f)
        in case opened f of
             Inl e \<Rightarrow> (Some e, s)
           | Inr txt \<Rightarrow>
               if str_in marker (take 20 txt) then
                 let s' = s\<lparr>size_acc := size_acc s + st_size f\<rparr>
                 in case line_of p (st_size f) (size_acc s') of
                      Inl e \<Rightarrow> (Some e, s')
                    | Inr l \<Rightarrow> print enc l s'
               else (None, s)
      else (None, s))"

text \<open>The inner loop over the files of one directory, and the outer loop over the walk.\<close>

fun visit_files :: "encoding \<Rightarrow> string \<Rightarrow> file_info list \<Rightarrow> state \<Rightarrow> py_error option \<times> state" where
  "visit_files enc dirpath [] s = (None, s)"
| "visit_files enc dirpath (f # fs) s =
     (case visit_file enc dirpath f s of
        (Some e, s') \<Rightarrow> (Some e, s')
      | (None, s') \<Rightarrow> visit_files enc dirpath fs s')"

fun visit_dirs :: "encoding \<Rightarrow> (string \<times> string list \<times> file_info list) list \<Rightarrow> state \<Rightarrow> py_error option \<times> state" where
  "visit_dirs enc [] s = (None, s)"
| "visit_dirs enc ((dirpath, dirnames, filenames) # ds) s =
     (case visit_files enc dirpath filenames s of
        (Some e, s') \<Rightarrow> (Some e, s')
      | (None, s') \<Rightarrow> visit_dirs enc ds s')"

definition initial :: state where
  "initial = \<lparr>size_acc = 0, stdout = []\<rparr>"

text \<open>
  The script, run in a working directory with the entries \<open>cwd\<close> and a standard output
  with the encoding \<open>enc\<close>.
\<close>

definition main :: "encoding \<Rightarrow> entry list \<Rightarrow> py_error option \<times> state" where
  "main enc cwd = visit_dirs enc (walk ''.'' cwd) initial"

section \<open>The notions of the specification\<close>

text \<open>
  The traversal order: every file of the walk with the path of its directory, in the
  order in which the two loops reach it.
\<close>

fun traversal_of :: "(string \<times> string list \<times> file_info list) list \<Rightarrow> (string \<times> file_info) list" where
  "traversal_of [] = []"
| "traversal_of ((dirpath, dirnames, filenames) # ds) =
     map (Pair dirpath) filenames @ traversal_of ds"

definition traversal :: "entry list \<Rightarrow> (string \<times> file_info) list" where
  "traversal cwd = traversal_of (walk ''.'' cwd)"

text \<open>
  The two nested loops as one loop over a list of files in traversal order
  (\<open>main_run\<close> below: the script is \<open>run\<close> on the traversal of the tree).
\<close>

fun run :: "encoding \<Rightarrow> (string \<times> file_info) list \<Rightarrow> state \<Rightarrow> py_error option \<times> state" where
  "run enc [] s = (None, s)"
| "run enc ((dirpath, f) # fs) s =
     (case visit_file enc dirpath f s of
        (Some e, s') \<Rightarrow> (Some e, s')
      | (None, s') \<Rightarrow> run enc fs s')"

text \<open>
  All the files of a directory tree, whatever the order of the walk, those of the
  directories that \<^verbatim>\<open>os.walk\<close> does not list included; and the trees in which it
  lists every directory.
\<close>

fun files_in :: "entry list \<Rightarrow> file_info list" where
  "files_in [] = []"
| "files_in (File f # es) = f # files_in es"
| "files_in (Dir d sub # es) = files_in sub @ files_in es"
| "files_in (Unlisted d sub # es) = files_in sub @ files_in es"

fun all_listed :: "entry list \<Rightarrow> bool" where
  "all_listed [] = True"
| "all_listed (File f # es) = all_listed es"
| "all_listed (Dir d sub # es) = (all_listed sub \<and> all_listed es)"
| "all_listed (Unlisted d sub # es) = False"

text \<open>The files of the directories that \<^verbatim>\<open>os.walk\<close> lists.\<close>

fun listed_files :: "entry list \<Rightarrow> file_info list" where
  "listed_files [] = []"
| "listed_files (File f # es) = f # listed_files es"
| "listed_files (Dir d sub # es) = listed_files sub @ listed_files es"
| "listed_files (Unlisted d sub # es) = listed_files es"

text \<open>
  A matched (countable) file in the words of the specification: its name ends with
  \<^verbatim>\<open>.cs\<close> and its first 20 characters, read as text, contain the marker. A file
  that cannot be read as text has no such characters.
\<close>

definition matched :: "file_info \<Rightarrow> bool" where
  "matched f =
     (endswith (name f) ''.cs'' \<and>
      (case opened f of Inl e \<Rightarrow> False | Inr txt \<Rightarrow> str_in marker (take 20 txt)))"

definition matched_files :: "(string \<times> file_info) list \<Rightarrow> (string \<times> file_info) list" where
  "matched_files fs = filter (\<lambda>(dirpath, f). matched f) fs"

definition sizes :: "(string \<times> file_info) list \<Rightarrow> int list" where
  "sizes fs = map (\<lambda>(dirpath, f). st_size f) fs"

text \<open>
  The report the specification expects from a list of files: for each matched file, in
  order, its path, its size and the running total (all in bytes), starting from the
  total \<open>tot\<close>.
\<close>

fun rows :: "int \<Rightarrow> (string \<times> file_info) list \<Rightarrow> (string \<times> int \<times> int) list" where
  "rows tot [] = []"
| "rows tot ((dirpath, f) # fs) =
     (if matched f
      then (path_join dirpath (name f), st_size f, tot + st_size f) # rows (tot + st_size f) fs
      else rows tot fs)"

text \<open>
  Formatted to two significant figures, in the words of the specification. A printed
  number is read back as a decimal: an optional sign, digits, an optional point with
  more digits, an optional exponent \<^verbatim>\<open>e+NN\<close> or \<^verbatim>\<open>e-NN\<close>. \<open>read_decimal\<close>
  gives its sign, the number \<open>M\<close> that its digits spell and the exponent \<open>E\<close>: the
  text denotes \<open>M * 10 ^ E\<close>.
\<close>

definition digit_of :: "char \<Rightarrow> nat option" where
  "digit_of c = map_of (zip ''0123456789'' [0, 1, 2, 3, 4, 5, 6, 7, 8, 9]) c"

fun digits_nat :: "nat \<Rightarrow> string \<Rightarrow> nat option" where
  "digits_nat a [] = Some a"
| "digits_nat a (c # cs) =
     (case digit_of c of None \<Rightarrow> None | Some d \<Rightarrow> digits_nat (10 * a + d) cs)"

definition numeral_of :: "string \<Rightarrow> nat option" where
  "numeral_of s = (if s = [] then None else digits_nat 0 s)"

definition read_exponent :: "string \<Rightarrow> int option" where
  "read_exponent ex =
     (case ex of
        [] \<Rightarrow> Some 0
      | [c] \<Rightarrow> None
      | c # sg # ds \<Rightarrow>
          if c = CHR ''e'' \<and> sg = CHR ''+'' then map_option int (numeral_of ds)
          else if c = CHR ''e'' \<and> sg = CHR ''-'' then map_option (\<lambda>k. - int k) (numeral_of ds)
          else None)"

definition read_mantissa :: "string \<Rightarrow> (nat \<times> nat) option" where
  "read_mantissa mant =
     (let ip = takeWhile (\<lambda>c. c \<noteq> CHR ''.'') mant;
          fp = dropWhile (\<lambda>c. c \<noteq> CHR ''.'') mant
      in if ip = [] then None
         else case fp of
                [] \<Rightarrow> map_option (\<lambda>M. (M, 0)) (digits_nat 0 ip)
              | dot # fd \<Rightarrow>
                  if fd = [] then None
                  else map_option (\<lambda>M. (M, length fd)) (digits_nat 0 (ip @ fd)))"

definition read_decimal :: "string \<Rightarrow> (bool \<times> nat \<times> int) option" where
  "read_decimal t =
     (let neg = (t \<noteq> [] \<and> hd t = CHR ''-'');
          u = (if neg then tl t else t);
          mant = takeWhile (\<lambda>c. c \<noteq> CHR ''e'') u;
          ex = dropWhile (\<lambda>c. c \<noteq> CHR ''e'') u
      in case read_mantissa mant of
           None \<Rightarrow> None
         | Some (M, k) \<Rightarrow>
             (case read_exponent ex of
                None \<Rightarrow> None
              | Some e \<Rightarrow> Some (neg, M, e - int k)))"

text \<open>
  The float that Python formats is \<open>|n| / 1024\<close> with \<open>|n|\<close> rounded to 53
  significant bits (1024 is a power of two): below \<open>2 ^ 53\<close> bytes the quotient
  itself, and from there on a nearest multiple of \<open>2 ^ sh\<close>, where \<open>53 + sh\<close> is
  the number of bits of \<open>|n|\<close>.
\<close>

definition rounds_to_53_bits :: "nat \<Rightarrow> nat \<Rightarrow> bool" where
  "rounds_to_53_bits n m =
     (if n < 2 ^ 53 then m = n
      else \<exists>sh. 2 ^ (52 + sh) \<le> n \<and> n < 2 ^ (53 + sh) \<and> 2 ^ sh dvd m \<and>
                2 * n \<le> 2 * m + 2 ^ sh \<and> 2 * m \<le> 2 * n + 2 ^ sh)"

text \<open>
  The text \<open>t\<close> shows \<open>n\<close> bytes in KiB to two significant figures: its digits spell
  a number below 100, and the number it denotes is within half a unit of the second
  significant digit of the float \<open>v\<close> (\<open>X\<close> is the decimal exponent of \<open>v\<close>).
\<close>

definition two_sig_figs :: "string \<Rightarrow> int \<Rightarrow> bool" where
  "two_sig_figs t n =
     (case read_decimal t of
        None \<Rightarrow> False
      | Some (neg, M, E) \<Rightarrow>
          M < 100 \<and>
          (\<exists>m. rounds_to_53_bits (nat \<bar>n\<bar>) m \<and>
               (let v = real m / 1024
                in if v = 0 then M = 0 \<and> \<not> neg
                   else neg = (n < 0) \<and>
                        (\<exists>X. 10 powi X \<le> v \<and> v < 10 powi (X + 1) \<and>
                             \<bar>v - real M * 10 powi E\<bar> \<le> 10 powi (X - 1) / 2))))"

section \<open>Example files\<close>

definition a_cs :: file_info where
  "a_cs = \<lparr>name = ''a.cs'',
            opened = Inr (''///Countable'' @ replicate 10228 (CHR ''x'')),
            st_size = 10240\<rparr>"

definition b_cs :: file_info where
  "b_cs = \<lparr>name = ''b.cs'',
            opened = Inr (''///Countable'' @ replicate 5108 (CHR ''x'')),
            st_size = 5120\<rparr>"

definition locked_cs :: file_info where
  "locked_cs = \<lparr>name = ''locked.cs'', opened = Inl OSError, st_size = 2048\<rparr>"

definition late_cs :: file_info where
  "late_cs = \<lparr>name = ''late.cs'',
               opened = Inr (''using System; ///Countable''),
               st_size = 26\<rparr>"

definition x_txt :: file_info where
  "x_txt = \<lparr>name = ''x.txt'', opened = Inr ''///Countable'', st_size = 12\<rparr>"

definition upper_cs :: file_info where
  "upper_cs = \<lparr>name = ''Program.CS'', opened = Inr ''///Countable'', st_size = 12\<rparr>"

definition bare_cs :: file_info where
  "bare_cs = \<lparr>name = ''.cs'', opened = Inr ''///Countable'', st_size = 12\<rparr>"

text \<open>
  A file whose name has a character outside ASCII (\<open>0xFF\<close>), and two encodings of
  standard output: one with the ASCII characters only, one with every character.
\<close>

definition y_cs :: file_info where
  "y_cs = \<lparr>name = CHR 0xFF # ''.cs'', opened = Inr ''///Countable'', st_size = 12\<rparr>"

definition ascii_only :: encoding where
  "ascii_only = (\<lambda>c. False)"

definition every_char :: encoding where
  "every_char = (\<lambda>c. True)"

section \<open>Strings\<close>

lemma endswith_suffix: "endswith s suf = suffix suf s"
  unfolding endswith_def
  by (metis append_eq_conv_conj suffix_def suffix_length_le
      suffix_drop length_append add_diff_cancel_right')

lemma startswith_prefix: "startswith s pre = prefix pre s"
  unfolding startswith_def
  by (metis append_eq_conv_conj prefix_def take_is_prefix)

lemma str_in_sublist: "str_in sub s = sublist sub s"
  by (induction s) (auto simp: startswith_prefix sublist_Cons_right)

section \<open>The loops\<close>

lemma run_append:
  "run enc (xs @ ys) s =
     (case run enc xs s of (Some e, s') \<Rightarrow> (Some e, s') | (None, s') \<Rightarrow> run enc ys s')"
  by (induction xs arbitrary: s) (auto split: prod.splits option.splits)

lemma visit_files_run: "visit_files enc d fs s = run enc (map (Pair d) fs) s"
  by (induction fs arbitrary: s) (auto split: prod.splits option.splits)

lemma visit_dirs_run: "visit_dirs enc ds s = run enc (traversal_of ds) s"
  by (induction ds arbitrary: s)
     (auto simp: run_append visit_files_run split: prod.splits option.splits)

lemma main_run: "main enc cwd = run enc (traversal cwd) initial"
  by (simp add: main_def traversal_def visit_dirs_run)

section \<open>The walk reaches every file of the listed directories once\<close>

lemma traversal_of_append: "traversal_of (xs @ ys) = traversal_of xs @ traversal_of ys"
  by (induction xs) auto

lemma snd_Pair_id: "snd \<circ> Pair d = id"
  by (rule ext) simp

lemma walk_files:
  "mset (map snd (traversal_of (walk path es))) = mset (listed_files es)"
  "mset (map snd (traversal_of (walk_subdirs path es))) + mset (filenames_of es) = mset (listed_files es)"
proof (induction path es and path es rule: walk_walk_subdirs.induct)
  case (1 path es)
  then show ?case by (simp add: snd_Pair_id add.commute)
next
  case (2 path)
  then show ?case by simp
next
  case (3 path f es)
  then show ?case by simp
next
  case (4 path d sub es)
  then show ?case
    by (simp add: traversal_of_append ac_simps del: walk.simps)
next
  case (5 path d sub es)
  then show ?case by simp
qed

lemma traversal_files: "mset (map snd (traversal cwd)) = mset (listed_files cwd)"
  unfolding traversal_def by (rule walk_files)

lemma listed_files_all: "all_listed es \<Longrightarrow> listed_files es = files_in es"
  by (induction es rule: files_in.induct) simp_all

lemma listed_files_subset: "set (listed_files es) \<subseteq> set (files_in es)"
  by (induction es rule: files_in.induct) auto

lemma matched_sum_files:
  "sum_list (sizes (matched_files (traversal cwd))) =
   sum_list (map st_size (filter matched (listed_files cwd)))"
proof -
  have "sizes (matched_files fs) = map st_size (filter matched (map snd fs))" for fs
    by (induction fs) (auto simp: sizes_def matched_files_def)
  then have "sum_list (sizes (matched_files (traversal cwd))) =
      sum_mset (image_mset st_size (filter_mset matched (mset (map snd (traversal cwd)))))"
    by (simp add: sum_mset_sum_list [symmetric])
  also have "\<dots> = sum_mset (image_mset st_size (filter_mset matched (mset (listed_files cwd))))"
    by (simp only: traversal_files)
  also have "\<dots> = sum_list (map st_size (filter matched (listed_files cwd)))"
    by (simp add: sum_mset_sum_list [symmetric])
  finally show ?thesis .
qed

lemma matched_count_files:
  "length (matched_files (traversal cwd)) = length (filter matched (listed_files cwd))"
proof -
  have "length (matched_files fs) = size (filter_mset matched (mset (map snd fs)))" for fs
    by (induction fs) (auto simp: matched_files_def)
  then have "length (matched_files (traversal cwd)) =
      size (filter_mset matched (mset (map snd (traversal cwd))))" .
  also have "\<dots> = size (filter_mset matched (mset (listed_files cwd)))"
    by (simp only: traversal_files)
  also have "\<dots> = length (filter matched (listed_files cwd))"
    by (simp flip: mset_filter)
  finally show ?thesis .
qed

lemma files_in_traversal: "(d, f) \<in> set (traversal cwd) \<Longrightarrow> f \<in> set (files_in cwd)"
proof -
  assume "(d, f) \<in> set (traversal cwd)"
  then have "f \<in> set (map snd (traversal cwd))" by force
  then have "f \<in># mset (map snd (traversal cwd))" by (simp only: set_mset_mset)
  then have "f \<in> set (listed_files cwd)" by (simp only: traversal_files set_mset_mset)
  with listed_files_subset show ?thesis by blast
qed

section \<open>The report of a run\<close>

lemma visit_file_not_matched:
  "\<not> matched f \<Longrightarrow>
   visit_file enc d f s =
     (if endswith (name f) ''.cs'' then
        (case opened f of Inl e \<Rightarrow> (Some e, s) | Inr txt \<Rightarrow> (None, s))
      else (None, s))"
  by (auto simp: visit_file_def matched_def Let_def split: sum.splits)

lemma visit_file_matched:
  "matched f \<Longrightarrow>
   visit_file enc d f s =
     (case line_of (path_join d (name f)) (st_size f) (size_acc s + st_size f) of
        Inl e \<Rightarrow> (Some e, s\<lparr>size_acc := size_acc s + st_size f\<rparr>)
      | Inr l \<Rightarrow> print enc l (s\<lparr>size_acc := size_acc s + st_size f\<rparr>))"
  by (auto simp: visit_file_def matched_def Let_def split: sum.splits)

lemma visit_file_matched_size:
  "matched f \<Longrightarrow> size_acc (snd (visit_file enc d f s)) = size_acc s + st_size f"
  by (simp add: visit_file_matched print_def split: sum.splits)

lemma line_of_error: "line_of p sz tot = Inl e \<Longrightarrow> e = OverflowError"
  by (auto simp: line_of_def kib_2g_def truediv_1024_def Let_def split: sum.splits if_splits)

lemma line_of_form:
  "line_of p sz tot = Inr l \<longleftrightarrow>
   (\<exists>a b. kib_2g sz = Inr a \<and> kib_2g tot = Inr b \<and>
          l = ''File '' @ p @ '': '' @ a @ '' KiB, so far at: '' @ b @ '' KiB'')"
  by (auto simp: line_of_def split: sum.splits)

lemma rows_length: "length (rows tot fs) = length (matched_files fs)"
  by (induction fs arbitrary: tot) (auto simp: matched_files_def)

lemma sizes_length: "length (sizes fs) = length fs"
  by (simp add: sizes_def)

lemma run_report:
  "run enc fs s = (err, s') \<Longrightarrow>
   \<exists>ls. stdout s' = stdout s @ ls \<and>
        list_all2 (\<lambda>l (p, sz, tot). line_of p sz tot = Inr l) ls
          (take (length ls) (rows (size_acc s) fs)) \<and>
        (err = None \<longrightarrow> length ls = length (matched_files fs)) \<and>
        (size_acc s' = size_acc s + sum_list (take (length ls) (sizes (matched_files fs))) \<or>
         err \<noteq> None \<and>
         size_acc s' = size_acc s + sum_list (take (Suc (length ls)) (sizes (matched_files fs))))"
proof (induction fs arbitrary: s)
  case Nil
  then show ?case by (simp add: matched_files_def sizes_def)
next
  case (Cons x fs)
  obtain d f where x: "x = (d, f)" by (cases x)
  show ?case
  proof (cases "matched f")
    case False
    show ?thesis
    proof (cases "endswith (name f) ''.cs'' \<and> isl (opened f)")
      case True
      with Cons.prems x False obtain e where "s' = s" "err = Some e"
        by (auto simp: visit_file_not_matched split: sum.splits)
      then show ?thesis
        by (intro exI [of _ "[]"]) simp
    next
      case nf: False
      with Cons.prems x False have "run enc fs s = (err, s')"
        by (auto simp: visit_file_not_matched split: if_splits sum.splits)
      from Cons.IH [OF this] False x show ?thesis
        by (simp add: matched_files_def sizes_def)
    qed
  next
    case True
    let ?s1 = "s\<lparr>size_acc := size_acc s + st_size f\<rparr>"
    have stop: ?thesis if "visit_file enc d f s = (Some e, ?s1)" for e
    proof -
      from that Cons.prems x have "s' = ?s1" "err = Some e" by simp_all
      with True x show ?thesis
        by (intro exI [of _ "[]"]) (simp add: matched_files_def sizes_def)
    qed
    show ?thesis
    proof (cases "line_of (path_join d (name f)) (st_size f) (size_acc s + st_size f)")
      case (Inl e)
      with True have "visit_file enc d f s = (Some e, ?s1)"
        by (simp add: visit_file_matched)
      then show ?thesis by (rule stop)
    next
      case (Inr l)
      show ?thesis
      proof (cases "encodable enc l")
        case False
        with Inr True have "visit_file enc d f s = (Some UnicodeEncodeError, ?s1)"
          by (simp add: visit_file_matched print_def)
        then show ?thesis by (rule stop)
      next
        case enc: True
        with Inr True Cons.prems x have
          r: "run enc fs (s\<lparr>size_acc := size_acc s + st_size f, stdout := stdout s @ [l]\<rparr>) = (err, s')"
          by (simp add: visit_file_matched print_def)
        from Cons.IH [OF r] obtain ls where
          "stdout s' = stdout s @ l # ls"
          "list_all2 (\<lambda>l (p, sz, tot). line_of p sz tot = Inr l) ls
             (take (length ls) (rows (size_acc s + st_size f) fs))"
          "err = None \<longrightarrow> length ls = length (matched_files fs)"
          "size_acc s' = size_acc s + st_size f + sum_list (take (length ls) (sizes (matched_files fs))) \<or>
           err \<noteq> None \<and>
           size_acc s' = size_acc s + st_size f + sum_list (take (Suc (length ls)) (sizes (matched_files fs)))"
          by auto
        with Inr True x show ?thesis
          by (intro exI [of _ "l # ls"]) (auto simp: matched_files_def sizes_def)
      qed
    qed
  qed
qed

lemma main_report:
  "list_all2 (\<lambda>l (p, sz, tot). line_of p sz tot = Inr l) (stdout (snd (main enc cwd)))
     (take (length (stdout (snd (main enc cwd)))) (rows 0 (traversal cwd))) \<and>
   (fst (main enc cwd) = None \<longrightarrow>
      length (stdout (snd (main enc cwd))) = length (matched_files (traversal cwd))) \<and>
   (size_acc (snd (main enc cwd)) =
      sum_list (take (length (stdout (snd (main enc cwd)))) (sizes (matched_files (traversal cwd)))) \<or>
    fst (main enc cwd) \<noteq> None \<and>
    size_acc (snd (main enc cwd)) =
      sum_list (take (Suc (length (stdout (snd (main enc cwd))))) (sizes (matched_files (traversal cwd)))))"
proof -
  have "run enc (traversal cwd) initial = (fst (main enc cwd), snd (main enc cwd))"
    by (simp add: main_run)
  from run_report [OF this] obtain ls where
    "stdout (snd (main enc cwd)) = stdout initial @ ls \<and>
     list_all2 (\<lambda>l (p, sz, tot). line_of p sz tot = Inr l) ls
       (take (length ls) (rows (size_acc initial) (traversal cwd))) \<and>
     (fst (main enc cwd) = None \<longrightarrow> length ls = length (matched_files (traversal cwd))) \<and>
     (size_acc (snd (main enc cwd)) =
        size_acc initial + sum_list (take (length ls) (sizes (matched_files (traversal cwd)))) \<or>
      fst (main enc cwd) \<noteq> None \<and>
      size_acc (snd (main enc cwd)) =
        size_acc initial + sum_list (take (Suc (length ls)) (sizes (matched_files (traversal cwd)))))"
    by (rule exE)
  moreover have "stdout initial = []" "size_acc initial = 0"
    by (simp_all add: initial_def)
  ultimately show ?thesis by simp
qed

lemmas main_lines = main_report [THEN conjunct1]
lemmas main_complete = main_report [THEN conjunct2, THEN conjunct1, rule_format]
lemmas main_size = main_report [THEN conjunct2, THEN conjunct2]

lemma main_size_complete:
  "fst (main enc cwd) = None \<Longrightarrow>
   size_acc (snd (main enc cwd)) = sum_list (sizes (matched_files (traversal cwd)))"
  using main_size [of enc cwd] main_complete [of enc cwd] by (simp add: sizes_length)

lemma main_lines_le:
  "length (stdout (snd (main enc cwd))) \<le> length (matched_files (traversal cwd))"
  using main_lines [of enc cwd] by (auto dest!: list_all2_lengthD simp: rows_length)

lemma rows_nth:
  "k < length (matched_files fs) \<Longrightarrow>
   rows tot fs ! k =
     (case matched_files fs ! k of
        (d, f) \<Rightarrow> (path_join d (name f), st_size f,
                   tot + sum_list (take (Suc k) (sizes (matched_files fs)))))"
proof (induction fs arbitrary: tot k)
  case Nil
  then show ?case by (simp add: matched_files_def)
next
  case (Cons x fs)
  obtain d f where x: "x = (d, f)" by (cases x)
  show ?case
  proof (cases "matched f")
    case False
    with Cons x show ?thesis by (simp add: matched_files_def)
  next
    case True
    show ?thesis
    proof (cases k)
      case 0
      with True x show ?thesis by (simp add: matched_files_def sizes_def)
    next
      case (Suc j)
      with Cons.prems True x have "j < length (matched_files fs)"
        by (simp add: matched_files_def)
      from Cons.IH [OF this, of "tot + st_size f"] Suc True x show ?thesis
        by (simp add: matched_files_def sizes_def split: prod.splits)
    qed
  qed
qed

lemma take_Suc_sum_mono:
  assumes "\<forall>x \<in> set xs. (0::int) \<le> x" "Suc i < length xs"
  shows "sum_list (take (Suc i) xs) \<le> sum_list (take (Suc (Suc i)) xs)"
proof -
  have "take (Suc (Suc i)) xs = take (Suc i) xs @ [xs ! Suc i]"
    using assms(2) by (simp add: take_Suc_conv_app_nth)
  moreover have "0 \<le> xs ! Suc i"
    using assms by (meson nth_mem)
  ultimately show ?thesis by simp
qed

section \<open>Evaluation\<close>

lemmas fmt_defs = kib_2g_def truediv_1024_def round53_def format_2g_def decimal_exponent_def
  two_digits_def render_g_def round_half_even_def digit_char_def Let_def
  bit_length.simps decimal_digits.simps str_nat.simps

lemma kib_2g_5120: "kib_2g 5120 = Inr ''5''"
  by (simp add: fmt_defs)

lemma kib_2g_10240: "kib_2g 10240 = Inr ''10''"
  by (simp add: fmt_defs)

lemma kib_2g_15360: "kib_2g 15360 = Inr ''15''"
  by (simp add: fmt_defs)

lemma kib_2g_12: "kib_2g 12 = Inr ''0.012''"
  by (simp add: fmt_defs)

lemmas kib_evals = kib_2g_5120 kib_2g_10240 kib_2g_15360 kib_2g_12

text \<open>
  More values of \<^verbatim>\<open>f"{n / 1024 :.2g}"\<close>: zero, one byte, a tie that goes to the even
  digit (128 / 1024 = 0.125), the rounding up to the next power of ten, and the
  scientific notation from 100 KiB on.
\<close>

lemma kib_2g_0: "kib_2g 0 = Inr ''0''"
  by (simp add: fmt_defs)

lemma kib_2g_1: "kib_2g 1 = Inr ''0.00098''"
  by (simp add: fmt_defs)

lemma kib_2g_128: "kib_2g 128 = Inr ''0.12''"
  by (simp add: fmt_defs)

lemma kib_2g_1019: "kib_2g 1019 = Inr ''1''"
  by (simp add: fmt_defs)

lemma kib_2g_102400: "kib_2g 102400 = Inr ''1e+02''"
  by (simp add: fmt_defs)

lemma kib_2g_1234567: "kib_2g 1234567 = Inr ''1.2e+03''"
  by (simp add: fmt_defs)

lemmas run_defs = main_def initial_def visit_file_def line_of_def path_join_def endswith_def
  startswith_def marker_def traversal_def matched_def matched_files_def sizes_def
  print_def encodable_def is_ascii_def

lemmas example_defs = a_cs_def b_cs_def locked_cs_def late_cs_def x_txt_def upper_cs_def
  bare_cs_def y_cs_def ascii_only_def every_char_def

lemma startswith_marker_prefix:
  assumes "startswith txt marker"
  shows "str_in marker (take 20 txt)"
proof -
  from assms obtain r where "txt = marker @ r"
    by (auto simp: startswith_prefix prefix_def)
  then have "take 20 txt = marker @ take 8 r"
    by (simp add: marker_def)
  then show ?thesis
    by (simp add: str_in_sublist)
qed

lemma endswith_same_length:
  "endswith s a \<Longrightarrow> endswith s b \<Longrightarrow> length a = length b \<Longrightarrow> a = b"
  by (auto simp: endswith_def)

section \<open>The format rounds to two significant digits\<close>

text \<open>
  Below \<open>2 ^ 53\<close> bytes the float is the exact quotient, and below \<open>2 ^ 1033\<close> bytes
  the division cannot overflow. The two digits \<open>r\<close> that \<open>format_2g\<close> prints for
  \<open>m / 1024\<close>, with the decimal exponent \<open>X\<close>, are a nearest two-digit decimal:
  \<open>|m / 1024 - r * 10 ^ (X - 1)| \<le> 10 ^ (X - 1) / 2\<close>, stated on integers.
\<close>

lemma bit_length_upper: "n < 2 ^ bit_length n"
proof (induction n rule: bit_length.induct)
  case (1 n)
  show ?case
  proof (cases "n = 0")
    case True
    then show ?thesis by (simp add: bit_length.simps)
  next
    case False
    with 1 have "n div 2 < 2 ^ bit_length (n div 2)" by simp
    then have "n < 2 * 2 ^ bit_length (n div 2)" by linarith
    with False show ?thesis by (subst bit_length.simps) simp
  qed
qed

lemma bit_length_lower: "0 < n \<Longrightarrow> 2 ^ (bit_length n - 1) \<le> n"
proof (induction n rule: bit_length.induct)
  case (1 n)
  show ?case
  proof (cases "n div 2 = 0")
    case True
    with 1(2) have "n = 1" by linarith
    then show ?thesis by (simp add: bit_length.simps)
  next
    case False
    with 1 have "2 ^ (bit_length (n div 2) - 1) \<le> n div 2" by simp
    moreover have "0 < bit_length (n div 2)"
      using False by (subst bit_length.simps) simp
    ultimately have "2 ^ bit_length (n div 2) \<le> 2 * (n div 2)"
      by (cases "bit_length (n div 2)") simp_all
    then have "2 ^ bit_length (n div 2) \<le> n" by linarith
    with 1(2) show ?thesis by (subst bit_length.simps) simp
  qed
qed

lemma bit_length_le: "n < 2 ^ k \<Longrightarrow> bit_length n \<le> k"
proof (rule ccontr)
  assume n: "n < 2 ^ k" and "\<not> bit_length n \<le> k"
  then have k: "k \<le> bit_length n - 1" by simp
  then have "0 < n" using \<open>\<not> bit_length n \<le> k\<close> by (cases "n = 0") (simp_all add: bit_length.simps)
  from bit_length_lower [OF this] have "2 ^ (bit_length n - 1) \<le> n" .
  moreover have "(2::nat) ^ k \<le> 2 ^ (bit_length n - 1)"
    using k by (simp add: power_increasing)
  ultimately show False using n by linarith
qed

lemma round_half_even_nearest:
  assumes "0 < b"
  shows "2 * (b * round_half_even a b) \<le> 2 * a + b \<and> 2 * a \<le> 2 * (b * round_half_even a b) + b"
proof -
  have a: "a = b * (a div b) + a mod b" by simp
  have r: "a mod b < b" using assms by simp
  show ?thesis
    unfolding round_half_even_def Let_def
    using r by (auto simp: algebra_simps) (use a in linarith)+
qed

lemma round53_small: "n < 2 ^ 53 \<Longrightarrow> round53 n = n"
  by (simp add: round53_def bit_length_le)


lemma round53_le_double: "round53 n \<le> 2 * n"
proof (cases "bit_length n \<le> 53")
  case True
  then show ?thesis by (simp add: round53_def)
next
  case False
  define sh where "sh = bit_length n - 53"
  have n0: "0 < n" using False by (cases "n = 0") (simp_all add: bit_length.simps)
  have "(2::nat) ^ sh \<le> 2 ^ (bit_length n - 1)"
    using False by (simp add: sh_def power_increasing)
  with bit_length_lower [OF n0] have sh: "2 ^ sh \<le> n" by linarith
  from round_half_even_nearest [of "2 ^ sh" n]
  have "2 * (2 ^ sh * round_half_even n (2 ^ sh)) \<le> 2 * n + 2 ^ sh" by simp
  with sh have "2 ^ sh * round_half_even n (2 ^ sh) \<le> 2 * n" by linarith
  with False show ?thesis
    by (simp add: round53_def sh_def Let_def mult.commute)
qed

lemma kib_2g_no_overflow:
  assumes "\<bar>n\<bar> < 2 ^ 1033"
  shows "\<exists>t. kib_2g n = Inr t"
proof -
  from assms have "nat \<bar>n\<bar> < 2 ^ 1033"
    by (metis nat_less_numeral_power_cancel_iff)
  with round53_le_double [of "nat \<bar>n\<bar>"] have "round53 (nat \<bar>n\<bar>) < 2 * 2 ^ 1033"
    by linarith
  then have "\<not> 2 ^ 1034 \<le> round53 (nat \<bar>n\<bar>)"
    by simp
  then show ?thesis
    by (simp add: kib_2g_def truediv_1024_def Let_def)
qed

lemma decimal_digits_bounds:
  "0 < n \<Longrightarrow> 10 ^ (decimal_digits n - 1) \<le> n \<and> n < 10 ^ decimal_digits n"
proof (induction n rule: decimal_digits.induct)
  case (1 n)
  show ?case
  proof (cases "n < 10")
    case True
    with 1(2) show ?thesis by (simp add: decimal_digits.simps)
  next
    case False
    then have "0 < n div 10" by simp
    with 1(1) False have ih: "10 ^ (decimal_digits (n div 10) - 1) \<le> n div 10"
      "n div 10 < 10 ^ decimal_digits (n div 10)"
      by simp_all
    have pos: "0 < decimal_digits (n div 10)"
      by (subst decimal_digits.simps) simp
    from ih(1) pos have "10 ^ decimal_digits (n div 10) \<le> 10 * (n div 10)"
      by (cases "decimal_digits (n div 10)") simp_all
    then have lo: "10 ^ decimal_digits (n div 10) \<le> n" by linarith
    from ih(2) have "n < 10 * 10 ^ decimal_digits (n div 10)" by linarith
    with lo False show ?thesis by (subst (1 2) decimal_digits.simps) simp
  qed
qed

lemma decimal_exponent_large:
  assumes "1024 \<le> m"
  shows "0 \<le> decimal_exponent m \<and>
         1024 * 10 ^ nat (decimal_exponent m) \<le> m \<and>
         m < 1024 * 10 ^ nat (decimal_exponent m + 1)"
proof -
  define q where "q = m div 1024"
  define k where "k = decimal_digits q - 1"
  have q: "0 < q" using assms by (simp add: q_def div_greater_zero_iff)
  from decimal_digits_bounds [OF q] have b: "10 ^ k \<le> q" "q < 10 ^ decimal_digits q"
    by (simp_all add: k_def)
  have pos: "0 < decimal_digits q"
    by (subst decimal_digits.simps) simp
  then have dk: "decimal_digits q = Suc k" by (simp add: k_def)
  have X: "decimal_exponent m = int k"
    using assms pos by (simp add: decimal_exponent_def q_def [symmetric] k_def)
  have "1024 * q \<le> m" "m < 1024 * (q + 1)"
    using div_mult_mod_eq [of m 1024] by (simp_all add: q_def)
  moreover from b(1) have "1024 * 10 ^ k \<le> 1024 * q" by simp
  moreover from b(2) dk have "1024 * (q + 1) \<le> 1024 * 10 ^ Suc k" by simp
  ultimately have "1024 * 10 ^ k \<le> m" "m < 1024 * 10 ^ Suc k" by linarith+
  with X show ?thesis by (simp add: nat_add_distrib)
qed

lemma decimal_exponent_small:
  assumes "0 < m" "m < 1024"
  shows "- 4 \<le> decimal_exponent m \<and> decimal_exponent m \<le> - 1 \<and>
         1024 \<le> m * 10 ^ nat (- decimal_exponent m) \<and>
         m * 10 ^ nat (- decimal_exponent m) < 10240"
  using assms by (simp add: decimal_exponent_def)

lemma two_digits_nearest:
  assumes "0 < m"
  shows "10 \<le> two_digits m (decimal_exponent m) \<and>
         two_digits m (decimal_exponent m) \<le> 100 \<and>
         (1 \<le> decimal_exponent m \<longrightarrow>
            2 * \<bar>int m - int (two_digits m (decimal_exponent m)) * (1024 * 10 ^ nat (decimal_exponent m - 1))\<bar>
              \<le> 1024 * 10 ^ nat (decimal_exponent m - 1)) \<and>
         (decimal_exponent m < 1 \<longrightarrow>
            2 * \<bar>int m * 10 ^ nat (1 - decimal_exponent m) - int (two_digits m (decimal_exponent m)) * 1024\<bar>
              \<le> 1024)"
proof (cases "1 \<le> decimal_exponent m")
  case True
  define X where "X = decimal_exponent m"
  define D :: nat where "D = 1024 * 10 ^ nat (X - 1)"
  define r where "r = round_half_even m D"
  have big: "1024 \<le> m"
    using True assms decimal_exponent_small [of m] by (cases "1024 \<le> m") auto
  from decimal_exponent_large [OF big] True
  have "1024 * 10 ^ nat X \<le> m" "m < 1024 * 10 ^ nat (X + 1)"
    by (simp_all add: X_def)
  moreover have "nat X = Suc (nat (X - 1))" "nat (X + 1) = Suc (Suc (nat (X - 1)))"
    using True by (simp_all add: X_def)
  ultimately have m: "10 * D \<le> m" "m < 100 * D"
    by (simp_all add: D_def)
  have D: "0 < D" by (simp add: D_def)
  from round_half_even_nearest [OF D, of m]
  have n: "2 * (D * r) \<le> 2 * m + D" "2 * m \<le> 2 * (D * r) + D"
    by (simp_all add: r_def)
  define p where "p = D * r"
  from n have np: "2 * p \<le> 2 * m + D" "2 * m \<le> 2 * p + D"
    by (simp_all add: p_def)
  from np(1) m(2) have "2 * p < 201 * D" by linarith
  then have "D * (2 * r) < D * 201" by (simp add: p_def algebra_simps)
  then have "2 * r < 201" by (simp only: mult_less_cancel1)
  then have r1: "r \<le> 100" by simp
  from np(2) m(1) have "20 * D \<le> 2 * p + D" by linarith
  then have "D * 20 \<le> D * (2 * r + 1)" by (simp add: p_def algebra_simps)
  then have "20 \<le> 2 * r + 1" using D by (simp only: mult_le_cancel1)
  then have r2: "10 \<le> r" by simp
  from np have "2 * int p \<le> 2 * int m + int D" "2 * int m \<le> 2 * int p + int D"
    by linarith+
  then have "2 * \<bar>int m - int p\<bar> \<le> int D"
    by (simp add: abs_if)
  then have "2 * \<bar>int m - int r * int D\<bar> \<le> int D"
    by (simp add: p_def mult.commute)
  moreover have "two_digits m X = r"
    using True by (simp add: two_digits_def X_def r_def D_def)
  ultimately show ?thesis
    using True r1 r2 by (simp add: X_def [symmetric] D_def)
next
  case False
  define X where "X = decimal_exponent m"
  define a where "a = m * 10 ^ nat (1 - X)"
  define r where "r = round_half_even a 1024"
  have a: "10240 \<le> a \<and> a < 102400"
  proof (cases "1024 \<le> m")
    case True
    from decimal_exponent_large [OF True] False have "X = 0"
      by (simp add: X_def)
    with decimal_exponent_large [OF True] show ?thesis
      by (simp add: a_def X_def)
  next
    case small: False
    with assms decimal_exponent_small [of m]
    have "X \<le> - 1" "1024 \<le> m * 10 ^ nat (- X)" "m * 10 ^ nat (- X) < 10240"
      by (simp_all add: X_def)
    moreover from \<open>X \<le> - 1\<close> have "nat (1 - X) = Suc (nat (- X))" by simp
    ultimately show ?thesis by (simp add: a_def)
  qed
  from round_half_even_nearest [of 1024 a]
  have n: "2 * (1024 * r) \<le> 2 * a + 1024" "2 * a \<le> 2 * (1024 * r) + 1024"
    by (simp_all add: r_def)
  with a have r: "10 \<le> r" "r \<le> 100" by linarith+
  from n have "2 * (1024 * int r) \<le> 2 * int a + 1024" "2 * int a \<le> 2 * (1024 * int r) + 1024"
    by linarith+
  then have "2 * \<bar>int a - int r * 1024\<bar> \<le> 1024"
    by (simp add: abs_if)
  moreover have "two_digits m X = r"
    using False by (simp add: two_digits_def X_def r_def a_def)
  ultimately show ?thesis
    using False r by (simp add: X_def [symmetric] a_def)
qed

section \<open>The printed number read back\<close>

lemmas read_defs = read_decimal_def read_mantissa_def read_exponent_def numeral_of_def
  digit_of_def Let_def


lemma digit_of_digit_char: "d < 10 \<Longrightarrow> digit_of (digit_char d) = Some d"
  by (simp add: digit_char_def digit_of_def)

lemma digit_char_not_special:
  "digit_char d \<noteq> CHR ''e''" "digit_char d \<noteq> CHR ''.''" "digit_char d \<noteq> CHR ''-''"
  by (simp_all add: digit_char_def)

lemma digits_nat_append:
  "digits_nat a (xs @ ys) = (case digits_nat a xs of None \<Rightarrow> None | Some b \<Rightarrow> digits_nat b ys)"
  by (induction xs arbitrary: a) (auto split: option.splits)

lemma str_nat_not_Nil: "str_nat n \<noteq> []"
  by (subst str_nat.simps) simp

lemma digits_nat_str_nat: "digits_nat 0 (str_nat n) = Some n"
proof (induction n rule: str_nat.induct)
  case (1 n)
  show ?case
  proof (cases "n < 10")
    case True
    then show ?thesis
      by (subst str_nat.simps) (simp add: digit_of_digit_char)
  next
    case False
    with 1 have "digits_nat 0 (str_nat (n div 10)) = Some (n div 10)" by simp
    with False show ?thesis
      by (subst str_nat.simps) (simp add: digits_nat_append digit_of_digit_char)
  qed
qed

lemma powi_10_step: "(10::real) powi X = 10 * 10 powi (X - 1)"
  using power_int_add_1 [of "10::real" "X - 1"] by simp

lemma digit_of_0: "digit_of CHR ''0'' = Some 0"
  by (simp add: digit_of_def)

lemma digits_nat_padded: "digits_nat 0 (CHR ''0'' # s) = digits_nat 0 s"
  by (simp add: digit_of_0)

lemma read_exponent_plus:
  "read_exponent (CHR ''e'' # CHR ''+'' # (if length (str_nat k) < 2 then ''0'' @ str_nat k else str_nat k)) =
   Some (int k)"
  by (simp add: read_exponent_def numeral_of_def str_nat_not_Nil digit_of_0 digits_nat_str_nat)

lemma read_render_g:
  assumes "10 \<le> r" "r \<le> 99" "- 4 \<le> X"
  shows "\<exists>M E. read_decimal (render_g r X) = Some (False, M, E) \<and>
               read_decimal (CHR ''-'' # render_g r X) = Some (True, M, E) \<and>
               M < 100 \<and> real M * 10 powi E = real r * 10 powi (X - 1)"
proof -
  have d: "r div 10 < 10" "r mod 10 < 10" "r div 10 \<noteq> 0"
    using assms by simp_all
  have r0: "real (r div 10) * 10 powi X = real r * 10 powi (X - 1)" if "r mod 10 = 0"
  proof -
    from that have "r = 10 * (r div 10)" by presburger
    then have "real r = 10 * real (r div 10)" by (metis of_nat_mult of_nat_numeral)
    then show ?thesis by (simp add: powi_10_step [of X])
  qed
  note simps = render_g_def read_decimal_def read_mantissa_def Let_def
    digit_of_digit_char digit_char_not_special digits_nat_append
  consider "2 \<le> X" | "X = 1" | "X = 0" | "X = - 1" | "X = - 2" | "X = - 3" | "X = - 4"
    using assms(3) by linarith
  then show ?thesis
  proof cases
    case 1
    then have x: "\<not> X < - 4" "\<not> X < 0" "int (nat \<bar>X\<bar>) = X" by simp_all
    show ?thesis
    proof (cases "r mod 10 = 0")
      case True
      have "read_decimal (render_g r X) = Some (False, r div 10, X)"
        "read_decimal (CHR ''-'' # render_g r X) = Some (True, r div 10, X)"
        using 1 x True d by (simp_all add: simps read_exponent_plus)
      with r0 [OF True] d show ?thesis by auto
    next
      case False
      have "read_decimal (render_g r X) = Some (False, r, X - 1)"
        "read_decimal (CHR ''-'' # render_g r X) = Some (True, r, X - 1)"
        using 1 x False d by (simp_all add: simps read_exponent_plus)
      with assms show ?thesis by auto
    qed
  next
    case 2
    have "read_decimal (render_g r X) = Some (False, r, X - 1)"
      "read_decimal (CHR ''-'' # render_g r X) = Some (True, r, X - 1)"
      using 2 d by (simp_all add: simps read_exponent_def)
    with assms show ?thesis by auto
  next
    case 3
    show ?thesis
    proof (cases "r mod 10 = 0")
      case True
      have "read_decimal (render_g r X) = Some (False, r div 10, X)"
        "read_decimal (CHR ''-'' # render_g r X) = Some (True, r div 10, X)"
        using 3 True d by (simp_all add: simps read_exponent_def)
      with r0 [OF True] d show ?thesis by auto
    next
      case False
      have "read_decimal (render_g r X) = Some (False, r, X - 1)"
        "read_decimal (CHR ''-'' # render_g r X) = Some (True, r, X - 1)"
        using 3 False d by (simp_all add: simps read_exponent_def)
      with assms show ?thesis by auto
    qed
  next
    case 4
    show ?thesis
    proof (cases "r mod 10 = 0")
      case True
      have "read_decimal (render_g r X) = Some (False, r div 10, X)"
        "read_decimal (CHR ''-'' # render_g r X) = Some (True, r div 10, X)"
        using 4 True d by (simp_all add: simps read_exponent_def digit_of_0)
      with r0 [OF True] d show ?thesis by auto
    next
      case False
      have "read_decimal (render_g r X) = Some (False, r, X - 1)"
        "read_decimal (CHR ''-'' # render_g r X) = Some (True, r, X - 1)"
        using 4 False d by (simp_all add: simps read_exponent_def digit_of_0)
      with assms show ?thesis by auto
    qed
  next
    case 5
    show ?thesis
    proof (cases "r mod 10 = 0")
      case True
      have "read_decimal (render_g r X) = Some (False, r div 10, X)"
        "read_decimal (CHR ''-'' # render_g r X) = Some (True, r div 10, X)"
        using 5 True d by (simp_all add: simps read_exponent_def digit_of_0)
      with r0 [OF True] d show ?thesis by auto
    next
      case False
      have "read_decimal (render_g r X) = Some (False, r, X - 1)"
        "read_decimal (CHR ''-'' # render_g r X) = Some (True, r, X - 1)"
        using 5 False d by (simp_all add: simps read_exponent_def digit_of_0)
      with assms show ?thesis by auto
    qed
  next
    case 6
    show ?thesis
    proof (cases "r mod 10 = 0")
      case True
      have "read_decimal (render_g r X) = Some (False, r div 10, X)"
        "read_decimal (CHR ''-'' # render_g r X) = Some (True, r div 10, X)"
        using 6 True d by (simp_all add: simps read_exponent_def digit_of_0)
      with r0 [OF True] d show ?thesis by auto
    next
      case False
      have "read_decimal (render_g r X) = Some (False, r, X - 1)"
        "read_decimal (CHR ''-'' # render_g r X) = Some (True, r, X - 1)"
        using 6 False d by (simp_all add: simps read_exponent_def digit_of_0)
      with assms show ?thesis by auto
    qed
  next
    case 7
    show ?thesis
    proof (cases "r mod 10 = 0")
      case True
      have "read_decimal (render_g r X) = Some (False, r div 10, X)"
        "read_decimal (CHR ''-'' # render_g r X) = Some (True, r div 10, X)"
        using 7 True d by (simp_all add: simps read_exponent_def digit_of_0)
      with r0 [OF True] d show ?thesis by auto
    next
      case False
      have "read_decimal (render_g r X) = Some (False, r, X - 1)"
        "read_decimal (CHR ''-'' # render_g r X) = Some (True, r, X - 1)"
        using 7 False d by (simp_all add: simps read_exponent_def digit_of_0)
      with assms show ?thesis by auto
    qed
  qed
qed

lemma powi_nonneg: "0 \<le> X \<Longrightarrow> (10::real) powi X = 10 ^ nat X"
  by (simp add: power_int_def)

lemma powi_neg: "X \<le> 0 \<Longrightarrow> (10::real) powi X = 1 / 10 ^ nat (- X)"
  by (cases "X = 0") (simp_all add: power_int_def field_simps)

lemma decimal_exponent_real:
  assumes "0 < m"
  shows "10 powi decimal_exponent m \<le> real m / 1024 \<and>
         real m / 1024 < 10 powi (decimal_exponent m + 1) \<and>
         - 4 \<le> decimal_exponent m"
proof (cases "1024 \<le> m")
  case True
  define k where "k = nat (decimal_exponent m)"
  from decimal_exponent_large [OF True]
  have X: "0 \<le> decimal_exponent m" and lo: "1024 * 10 ^ k \<le> m"
    and hi': "m < 1024 * 10 ^ nat (decimal_exponent m + 1)"
    by (simp_all add: k_def)
  have "nat (decimal_exponent m + 1) = Suc k"
    using X by (simp add: k_def nat_add_distrib)
  with hi' have hi: "m < 1024 * 10 ^ Suc k" by (simp only:)
  from lo have "real (1024 * 10 ^ k) \<le> real m" by (simp only: of_nat_le_iff)
  then have a: "10 ^ k \<le> real m / 1024" by simp
  from hi have "real m < real (1024 * 10 ^ Suc k)" by (simp only: of_nat_less_iff)
  then have b: "real m / 1024 < 10 ^ Suc k" by simp
  have "(10::real) powi decimal_exponent m = 10 ^ k"
    "(10::real) powi (decimal_exponent m + 1) = 10 ^ Suc k"
    using X by (simp_all add: powi_nonneg k_def nat_add_distrib)
  with a b X show ?thesis by simp
next
  case False
  define j where "j = nat (- decimal_exponent m)"
  from False assms decimal_exponent_small [of m]
  have X: "- 4 \<le> decimal_exponent m" "decimal_exponent m \<le> - 1"
    and lo: "1024 \<le> m * 10 ^ j" and hi: "m * 10 ^ j < 10240"
    by (simp_all add: j_def)
  from lo have "real 1024 \<le> real (m * 10 ^ j)" by (simp only: of_nat_le_iff)
  then have a: "1 / 10 ^ j \<le> real m / 1024" by (simp add: field_simps)
  from hi have "real (m * 10 ^ j) < real 10240" by (simp only: of_nat_less_iff)
  then have b: "real m / 1024 < 10 * (1 / 10 ^ j)" by (simp add: field_simps)
  have p: "(10::real) powi decimal_exponent m = 1 / 10 ^ j"
    using X by (simp add: powi_neg j_def)
  have "(10::real) powi (decimal_exponent m + 1) = 10 * 10 powi decimal_exponent m"
    using powi_10_step [of "decimal_exponent m + 1"] by simp
  with p a b X show ?thesis by simp
qed

lemma two_digits_real:
  assumes "0 < m"
  shows "\<bar>real m / 1024 - real (two_digits m (decimal_exponent m)) * 10 powi (decimal_exponent m - 1)\<bar>
           \<le> 10 powi (decimal_exponent m - 1) / 2"
proof (cases "1 \<le> decimal_exponent m")
  case True
  define k where "k = nat (decimal_exponent m - 1)"
  define r where "r = two_digits m (decimal_exponent m)"
  from two_digits_nearest [OF assms] True
  have "2 * \<bar>int m - int r * (1024 * 10 ^ k)\<bar> \<le> 1024 * 10 ^ k"
    by (simp add: k_def r_def)
  then have "real_of_int (2 * \<bar>int m - int r * (1024 * 10 ^ k)\<bar>) \<le> real_of_int (1024 * 10 ^ k)"
    by (simp only: of_int_le_iff)
  then have "2 * \<bar>real m - real r * (1024 * 10 ^ k)\<bar> \<le> 1024 * 10 ^ k"
    by simp
  then have "\<bar>real m / 1024 - real r * 10 ^ k\<bar> \<le> 10 ^ k / 2"
    by (simp add: abs_le_iff field_simps)
  moreover have "(10::real) powi (decimal_exponent m - 1) = 10 ^ k"
    using True by (simp add: powi_nonneg k_def)
  ultimately show ?thesis by (simp add: r_def)
next
  case False
  define q where "q = nat (1 - decimal_exponent m)"
  define r where "r = two_digits m (decimal_exponent m)"
  from two_digits_nearest [OF assms] False
  have "2 * \<bar>int m * 10 ^ q - int r * 1024\<bar> \<le> 1024"
    by (simp add: q_def r_def)
  then have "real_of_int (2 * \<bar>int m * 10 ^ q - int r * 1024\<bar>) \<le> real_of_int 1024"
    by (simp only: of_int_le_iff)
  then have "2 * \<bar>real m * 10 ^ q - real r * 1024\<bar> \<le> 1024"
    by simp
  then have "\<bar>real m / 1024 - real r * (1 / 10 ^ q)\<bar> \<le> (1 / 10 ^ q) / 2"
    by (simp add: abs_le_iff field_simps)
  moreover have "(10::real) powi (decimal_exponent m - 1) = 1 / 10 ^ q"
    using False by (simp add: powi_neg q_def)
  ultimately show ?thesis by (simp add: r_def)
qed

lemma round53_rounds: "rounds_to_53_bits n (round53 n)"
proof (cases "n < 2 ^ 53")
  case True
  then show ?thesis by (simp add: rounds_to_53_bits_def round53_small)
next
  case False
  define sh where "sh = bit_length n - 53"
  have bl: "53 < bit_length n"
  proof (rule ccontr)
    assume "\<not> 53 < bit_length n"
    then have "bit_length n \<le> 53" by simp
    then have "(2::nat) ^ bit_length n \<le> 2 ^ 53" by (rule power_increasing) simp
    with bit_length_upper [of n] False show False by linarith
  qed
  then have e: "52 + sh = bit_length n - 1" "53 + sh = bit_length n"
    by (simp_all add: sh_def)
  have n0: "0 < n" using False by (cases "n = 0") simp_all
  from bit_length_lower [OF n0] bit_length_upper [of n] e
  have b: "2 ^ (52 + sh) \<le> n" "n < 2 ^ (53 + sh)" by simp_all
  have r: "round53 n = round_half_even n (2 ^ sh) * 2 ^ sh"
    using bl by (simp add: round53_def sh_def Let_def)
  from round_half_even_nearest [of "2 ^ sh" n]
  have "2 * n \<le> 2 * round53 n + 2 ^ sh" "2 * round53 n \<le> 2 * n + 2 ^ sh"
    by (simp_all add: r mult.commute)
  moreover have "2 ^ sh dvd round53 n" by (simp add: r)
  ultimately show ?thesis
    using False b unfolding rounds_to_53_bits_def by auto
qed

lemma format_2g_two_sig_figs:
  assumes "m = round53 (nat \<bar>n\<bar>)"
  shows "two_sig_figs (format_2g (n < 0) m) n"
proof (cases "m = 0")
  case True
  have "read_decimal ''0'' = Some (False, 0, 0)"
    by (simp add: read_decimal_def read_mantissa_def read_exponent_def digit_of_0)
  moreover have "\<exists>m'. rounds_to_53_bits (nat \<bar>n\<bar>) m' \<and> real m' / 1024 = 0"
    using round53_rounds [of "nat \<bar>n\<bar>"] True assms by (intro exI [of _ 0]) simp
  ultimately show ?thesis
    using True by (auto simp: two_sig_figs_def format_2g_def Let_def)
next
  case False
  then have m: "0 < m" by simp
  define X0 where "X0 = decimal_exponent m"
  define r0 where "r0 = two_digits m X0"
  define r where "r = (if r0 = 100 then 10 else r0)"
  define X where "X = (if r0 = 100 then X0 + 1 else X0)"
  from two_digits_nearest [OF m] have r0: "10 \<le> r0" "r0 \<le> 100"
    by (simp_all add: r0_def X0_def)
  from decimal_exponent_real [OF m]
  have ex: "10 powi X0 \<le> real m / 1024" "real m / 1024 < 10 powi (X0 + 1)" "- 4 \<le> X0"
    by (simp_all add: X0_def)
  from two_digits_real [OF m]
  have near: "\<bar>real m / 1024 - real r0 * 10 powi (X0 - 1)\<bar> \<le> 10 powi (X0 - 1) / 2"
    by (simp add: r0_def X0_def)
  have r: "10 \<le> r" "r \<le> 99" "- 4 \<le> X"
    using r0 ex(3) by (auto simp: r_def X_def)
  have val: "real r * 10 powi (X - 1) = real r0 * 10 powi (X0 - 1)"
    using powi_10_step [of X0] by (simp add: r_def X_def)
  have ftext: "format_2g neg m = (if neg then CHR ''-'' # render_g r X else render_g r X)" for neg
    using False by (simp add: format_2g_def Let_def r_def X_def r0_def X0_def)
  from read_render_g [OF r] obtain M E where
    rd: "read_decimal (render_g r X) = Some (False, M, E)"
      "read_decimal (CHR ''-'' # render_g r X) = Some (True, M, E)"
      "M < 100" "real M * 10 powi E = real r * 10 powi (X - 1)"
    by blast
  have v: "real m / 1024 \<noteq> 0" using m by simp
  have near': "\<exists>Y. 10 powi Y \<le> real m / 1024 \<and> real m / 1024 < 10 powi (Y + 1) \<and>
          \<bar>real m / 1024 - real M * 10 powi E\<bar> \<le> 10 powi (Y - 1) / 2"
    using ex near rd(4) val by (intro exI [of _ X0]) simp
  have rdt: "read_decimal (format_2g (n < 0) m) = Some (n < 0, M, E)"
    using rd(1,2) by (cases "n < 0") (simp_all add: ftext)
  have "rounds_to_53_bits (nat \<bar>n\<bar>) m"
    unfolding assms by (rule round53_rounds)
  with v near' have
    "\<exists>m'. rounds_to_53_bits (nat \<bar>n\<bar>) m' \<and>
       (let v = real m' / 1024
        in if v = 0 then M = 0 \<and> \<not> n < 0
           else (n < 0) = (n < 0) \<and>
                (\<exists>Y. 10 powi Y \<le> v \<and> v < 10 powi (Y + 1) \<and>
                     \<bar>v - real M * 10 powi E\<bar> \<le> 10 powi (Y - 1) / 2))"
    by (intro exI [of _ m]) (simp add: Let_def)
  with rd(3) show ?thesis
    unfolding two_sig_figs_def rdt by simp
qed

lemma kib_2g_two_sig_figs: "kib_2g n = Inr t \<Longrightarrow> two_sig_figs t n"
  using format_2g_two_sig_figs [of "round53 (nat \<bar>n\<bar>)" n]
  by (auto simp: kib_2g_def truediv_1024_def Let_def split: if_splits)

text \<open>
  The predicate tells texts apart: it holds of \<^verbatim>\<open>1e+02\<close> for 100 KiB and not of
  \<^verbatim>\<open>1e+0\<close>.
\<close>

lemma two_sig_figs_accepts: "two_sig_figs ''1e+02'' 102400"
  by (rule kib_2g_two_sig_figs) (rule kib_2g_102400)

lemma two_sig_figs_rejects: "\<not> two_sig_figs ''1e+0'' 102400"
proof
  assume "two_sig_figs ''1e+0'' 102400"
  moreover have "read_decimal ''1e+0'' = Some (False, 1, 0)"
    by (simp add: read_defs)
  ultimately obtain X :: int where
    X: "10 powi X \<le> (100::real)" "\<bar>(100::real) - 1\<bar> \<le> 10 powi (X - 1) / 2"
    by (auto simp: two_sig_figs_def rounds_to_53_bits_def Let_def)
  show False
  proof (cases "X \<le> 3")
    case True
    then have "(10::real) powi (X - 1) \<le> 10 powi 2"
      by (intro power_int_increasing) simp_all
    with X(2) show False by simp
  next
    case False
    then have "(10::real) powi 4 \<le> 10 powi X"
      by (intro power_int_increasing) simp_all
    with X(1) show False by simp
  qed
qed

lemma line_of_shown:
  "line_of p sz tot = Inr l \<longleftrightarrow>
   (\<exists>a b. kib_2g sz = Inr a \<and> kib_2g tot = Inr b \<and> two_sig_figs a sz \<and> two_sig_figs b tot \<and>
          l = ''File '' @ p @ '': '' @ a @ '' KiB, so far at: '' @ b @ '' KiB'')"
  by (auto simp: line_of_form kib_2g_two_sig_figs)


section \<open>The claims\<close>

text \<open>
  C1. When the run raises no exception, the final value of the accumulator is the sum of
  the sizes \<open>st_size\<close> of exactly the files, in the directories that \<^verbatim>\<open>os.walk\<close>
  lists, whose name ends with \<^verbatim>\<open>.cs\<close> and whose first 20 characters, read as text,
  contain \<^verbatim>\<open>///Countable\<close>: of exactly those files of the whole tree when
  \<^verbatim>\<open>os.walk\<close> lists every directory. A run that an exception ends stops with the
  sum so far, and a directory that is not listed is left out without an exception.
\<close>

theorem total_is_sum_of_matched:
  assumes "fst (main enc cwd) = None"
  shows "size_acc (snd (main enc cwd)) = sum_list (map st_size (filter matched (listed_files cwd))) \<and>
         (all_listed cwd \<longrightarrow>
            size_acc (snd (main enc cwd)) = sum_list (map st_size (filter matched (files_in cwd))))"
  using main_size_complete [OF assms] matched_sum_files [of cwd]
  by (simp add: listed_files_all)

theorem total_is_sum_of_matched_witness:
  "fst (main ascii_only [File a_cs, Dir ''lib'' [File b_cs, File x_txt], File late_cs]) = None \<and>
   all_listed [File a_cs, Dir ''lib'' [File b_cs, File x_txt], File late_cs] \<and>
   size_acc (snd (main ascii_only [File a_cs, Dir ''lib'' [File b_cs, File x_txt], File late_cs])) =
     sum_list (map st_size
       (filter matched (files_in [File a_cs, Dir ''lib'' [File b_cs, File x_txt], File late_cs]))) \<and>
   size_acc (snd (main ascii_only [File a_cs, Dir ''lib'' [File b_cs, File x_txt], File late_cs])) = 15360"
proof -
  let ?T = "[File a_cs, Dir ''lib'' [File b_cs, File x_txt], File late_cs]"
  have h: "fst (main ascii_only ?T) = None"
    by (simp add: run_defs example_defs kib_evals)
  have l: "all_listed ?T" by simp
  have v: "size_acc (snd (main ascii_only ?T)) = 15360"
    by (simp add: run_defs example_defs kib_evals)
  from total_is_sum_of_matched [OF h] h l v show ?thesis by simp
qed

theorem total_after_abort_counterexample:
  "fst (main ascii_only [File locked_cs, File a_cs]) = Some OSError \<and>
   size_acc (snd (main ascii_only [File locked_cs, File a_cs])) = 0 \<and>
   sum_list (map st_size (filter matched (files_in [File locked_cs, File a_cs]))) = 10240 \<and>
   fst (main ascii_only [Unlisted ''private'' [File a_cs], File b_cs]) = None \<and>
   size_acc (snd (main ascii_only [Unlisted ''private'' [File a_cs], File b_cs])) = 5120 \<and>
   sum_list (map st_size (filter matched (files_in [Unlisted ''private'' [File a_cs], File b_cs]))) = 15360"
  by (simp add: run_defs example_defs kib_evals)



text \<open>
  C3. A file whose name does not end with \<^verbatim>\<open>.cs\<close> is never counted, whatever its
  content: the visit changes nothing, and the run of a tree that holds the file is the run
  over the other files of the traversal.
\<close>

theorem other_extension_never_counted:
  assumes "\<not> endswith (name f) ''.cs''"
  shows "visit_file enc d f s = (None, s) \<and>
         (traversal cwd = pre @ (d, f) # post \<longrightarrow> main enc cwd = run enc (pre @ post) initial)"
proof -
  have v: "visit_file enc d f s = (None, s)" for s
    using assms by (simp add: visit_file_def)
  have "run enc (pre @ (d, f) # post) initial = run enc (pre @ post) initial"
    by (simp add: run_append v split: prod.splits option.splits)
  with v show ?thesis by (simp add: main_run)
qed

theorem other_extension_never_counted_witness:
  "\<not> endswith (name x_txt) ''.cs'' \<and>
   opened x_txt = Inr ''///Countable'' \<and>
   visit_file ascii_only ''.'' x_txt initial = (None, initial) \<and>
   traversal [File a_cs, File x_txt, File b_cs] = [(''.'', a_cs)] @ (''.'', x_txt) # [(''.'', b_cs)] \<and>
   main ascii_only [File a_cs, File x_txt, File b_cs] =
     run ascii_only ([(''.'', a_cs)] @ [(''.'', b_cs)]) initial"
proof -
  have h: "\<not> endswith (name x_txt) ''.cs''"
    by (simp add: run_defs example_defs)
  have t: "traversal [File a_cs, File x_txt, File b_cs] =
      [(''.'', a_cs)] @ (''.'', x_txt) # [(''.'', b_cs)]"
    by (simp add: traversal_def)
  from other_extension_never_counted [OF h, of ascii_only "''.''" initial
      "[File a_cs, File x_txt, File b_cs]" "[(''.'', a_cs)]" "[(''.'', b_cs)]"] t h
  show ?thesis by (simp add: x_txt_def)
qed

text \<open>
  C4. When a file \<^verbatim>\<open>.cs\<close> cannot be opened, read or decoded, and the files before it
  in the traversal raised nothing and left the state \<open>s\<close>, the run ends with that
  exception in the state \<open>s\<close>: the lines printed before the failure are the whole
  output, and no file after it (\<open>post\<close>) is examined or counted.
\<close>

theorem read_failure_ends_run:
  assumes "traversal cwd = pre @ (d, f) # post"
    and "endswith (name f) ''.cs''"
    and "opened f = Inl e"
    and "run enc pre initial = (None, s)"
  shows "main enc cwd = (Some e, s)"
  using assms by (simp add: main_run run_append visit_file_def)

theorem read_failure_ends_run_witness:
  "traversal [File a_cs, File locked_cs, File b_cs] =
     [(''.'', a_cs)] @ (''.'', locked_cs) # [(''.'', b_cs)] \<and>
   endswith (name locked_cs) ''.cs'' \<and>
   opened locked_cs = Inl OSError \<and>
   run ascii_only [(''.'', a_cs)] initial =
     (None, \<lparr>size_acc = 10240, stdout = [''File ./a.cs: 10 KiB, so far at: 10 KiB'']\<rparr>) \<and>
   main ascii_only [File a_cs, File locked_cs, File b_cs] =
     (Some OSError, \<lparr>size_acc = 10240, stdout = [''File ./a.cs: 10 KiB, so far at: 10 KiB'']\<rparr>)"
proof -
  have t: "traversal [File a_cs, File locked_cs, File b_cs] =
      [(''.'', a_cs)] @ (''.'', locked_cs) # [(''.'', b_cs)]"
    by (simp add: traversal_def)
  have n: "endswith (name locked_cs) ''.cs''"
    by (simp add: run_defs example_defs)
  have op: "opened locked_cs = Inl OSError"
    by (simp add: locked_cs_def)
  have r: "run ascii_only [(''.'', a_cs)] initial =
      (None, \<lparr>size_acc = 10240, stdout = [''File ./a.cs: 10 KiB, so far at: 10 KiB'']\<rparr>)"
    by (simp add: run_defs example_defs kib_evals)
  from read_failure_ends_run [OF t n op r] t n op r show ?thesis by simp
qed

text \<open>
  C5. In a run that raises no exception, every matched file in a directory that
  \<^verbatim>\<open>os.walk\<close> lists has exactly one line in the output, in traversal order, and the
  output has no other line: the line is
  \<^verbatim>\<open>File <path>: <size> KiB, so far at: <total> KiB\<close>, where the two numbers show the
  file's size and the running total, in bytes divided by 1024, to two significant
  figures. In any run the output is, line for line, the lines of the matched files visited
  before the run ended. A matched file that is not reached (an exception before it, a
  directory that is not listed) or whose line cannot be printed has no line.
\<close>

theorem one_line_per_match:
  "list_all2
     (\<lambda>l (p, sz, tot). \<exists>a b. kib_2g sz = Inr a \<and> kib_2g tot = Inr b \<and>
        two_sig_figs a sz \<and> two_sig_figs b tot \<and>
        l = ''File '' @ p @ '': '' @ a @ '' KiB, so far at: '' @ b @ '' KiB'')
     (stdout (snd (main enc cwd)))
     (take (length (stdout (snd (main enc cwd)))) (rows 0 (traversal cwd))) \<and>
   (fst (main enc cwd) = None \<longrightarrow>
      list_all2
        (\<lambda>l (p, sz, tot). \<exists>a b. kib_2g sz = Inr a \<and> kib_2g tot = Inr b \<and>
           two_sig_figs a sz \<and> two_sig_figs b tot \<and>
           l = ''File '' @ p @ '': '' @ a @ '' KiB, so far at: '' @ b @ '' KiB'')
        (stdout (snd (main enc cwd))) (rows 0 (traversal cwd)) \<and>
      length (stdout (snd (main enc cwd))) = length (filter matched (listed_files cwd)) \<and>
      (all_listed cwd \<longrightarrow>
         length (stdout (snd (main enc cwd))) = length (filter matched (files_in cwd))))"
proof -
  let ?out = "stdout (snd (main enc cwd))"
  let ?R = "rows 0 (traversal cwd)"
  have "take (length ?out) ?R = ?R" if "fst (main enc cwd) = None"
    using main_complete [OF that] by (simp add: rows_length)
  with main_lines [of enc cwd, unfolded line_of_shown] main_complete [of enc cwd]
    matched_count_files [of cwd]
  show ?thesis by (auto simp: listed_files_all)
qed

theorem one_line_per_match_witness:
  "fst (main ascii_only [File a_cs, Dir ''lib'' [File b_cs, File x_txt], File late_cs]) = None \<and>
   all_listed [File a_cs, Dir ''lib'' [File b_cs, File x_txt], File late_cs] \<and>
   length (stdout (snd (main ascii_only [File a_cs, Dir ''lib'' [File b_cs, File x_txt], File late_cs]))) =
     length (filter matched (files_in [File a_cs, Dir ''lib'' [File b_cs, File x_txt], File late_cs])) \<and>
   rows 0 (traversal [File a_cs, Dir ''lib'' [File b_cs, File x_txt], File late_cs]) =
     [(''./a.cs'', 10240, 10240), (''./lib/b.cs'', 5120, 15360)] \<and>
   stdout (snd (main ascii_only [File a_cs, Dir ''lib'' [File b_cs, File x_txt], File late_cs])) =
     [''File ./a.cs: 10 KiB, so far at: 10 KiB'', ''File ./lib/b.cs: 5 KiB, so far at: 15 KiB'']"
proof -
  let ?T = "[File a_cs, Dir ''lib'' [File b_cs, File x_txt], File late_cs]"
  have h: "fst (main ascii_only ?T) = None"
    by (simp add: run_defs example_defs kib_evals)
  have l: "all_listed ?T" by simp
  have o: "stdout (snd (main ascii_only ?T)) =
     [''File ./a.cs: 10 KiB, so far at: 10 KiB'', ''File ./lib/b.cs: 5 KiB, so far at: 15 KiB'']"
    by (simp add: run_defs example_defs kib_evals)
  have r: "rows 0 (traversal ?T) = [(''./a.cs'', 10240, 10240), (''./lib/b.cs'', 5120, 15360)]"
    by (simp add: run_defs example_defs)
  from one_line_per_match [of ascii_only ?T] h l
  have "length (stdout (snd (main ascii_only ?T))) = length (filter matched (files_in ?T))"
    by blast
  with h l o r show ?thesis by blast
qed

theorem matched_without_line_counterexample:
  "matched a_cs \<and>
   fst (main every_char [File locked_cs, File a_cs]) = Some OSError \<and>
   stdout (snd (main every_char [File locked_cs, File a_cs])) = [] \<and>
   fst (main every_char [Unlisted ''private'' [File a_cs]]) = None \<and>
   stdout (snd (main every_char [Unlisted ''private'' [File a_cs]])) = [] \<and>
   matched y_cs \<and>
   main ascii_only [File y_cs] = (Some UnicodeEncodeError, \<lparr>size_acc = 12, stdout = []\<rparr>)"
  by (simp add: run_defs example_defs kib_evals)

text \<open>
  C6. When no file of the tree has a negative size, the running total of a printed line
  is at most the running total of the line printed after it.
\<close>

theorem running_total_non_decreasing:
  assumes "\<forall>f \<in> set (files_in cwd). 0 \<le> st_size f"
    and "Suc i < length (stdout (snd (main enc cwd)))"
  shows "(case (rows 0 (traversal cwd) ! i, rows 0 (traversal cwd) ! Suc i) of
           ((p, sz, tot), (p', sz', tot')) \<Rightarrow>
             line_of p sz tot = Inr (stdout (snd (main enc cwd)) ! i) \<and>
             line_of p' sz' tot' = Inr (stdout (snd (main enc cwd)) ! Suc i) \<and>
             tot \<le> tot')"
proof -
  let ?out = "stdout (snd (main enc cwd))"
  let ?M = "matched_files (traversal cwd)"
  let ?R = "rows 0 (traversal cwd)"
  from assms(2) main_lines_le [of enc cwd] have len: "Suc i < length ?M" "i < length ?M"
    by simp_all
  have nth: "line_of (fst (?R ! k)) (fst (snd (?R ! k))) (snd (snd (?R ! k))) = Inr (?out ! k)"
    if "k < length ?out" for k
    using main_lines [of enc cwd] that
    by (auto simp: list_all2_conv_all_nth split: prod.splits)
  have "\<forall>x \<in> set (sizes ?M). 0 \<le> x"
    using assms(1) by (auto simp: sizes_def matched_files_def dest: files_in_traversal)
  then have "sum_list (take (Suc i) (sizes ?M)) \<le> sum_list (take (Suc (Suc i)) (sizes ?M))"
    using len by (intro take_Suc_sum_mono) (simp_all add: sizes_length)
  then have "snd (snd (?R ! i)) \<le> snd (snd (?R ! Suc i))"
    using len by (simp add: rows_nth split: prod.splits)
  moreover obtain p sz tot where ri: "?R ! i = (p, sz, tot)"
    by (cases "?R ! i")
  moreover obtain p' sz' tot' where rj: "?R ! Suc i = (p', sz', tot')"
    by (cases "?R ! Suc i")
  ultimately show ?thesis
    using nth [of i] nth [of "Suc i"] assms(2) by simp
qed

theorem running_total_non_decreasing_witness:
  "list_all (\<lambda>f. 0 \<le> st_size f) (files_in [File a_cs, Dir ''lib'' [File b_cs, File x_txt], File late_cs]) \<and>
   stdout (snd (main ascii_only [File a_cs, Dir ''lib'' [File b_cs, File x_txt], File late_cs])) =
     [''File ./a.cs: 10 KiB, so far at: 10 KiB'', ''File ./lib/b.cs: 5 KiB, so far at: 15 KiB''] \<and>
   rows 0 (traversal [File a_cs, Dir ''lib'' [File b_cs, File x_txt], File late_cs]) =
     [(''./a.cs'', 10240, 10240), (''./lib/b.cs'', 5120, 15360)] \<and>
   line_of ''./a.cs'' 10240 10240 = Inr ''File ./a.cs: 10 KiB, so far at: 10 KiB'' \<and>
   line_of ''./lib/b.cs'' 5120 15360 = Inr ''File ./lib/b.cs: 5 KiB, so far at: 15 KiB'' \<and>
   (10240 :: int) \<le> 15360"
proof -
  let ?T = "[File a_cs, Dir ''lib'' [File b_cs, File x_txt], File late_cs]"
  have h: "\<forall>f \<in> set (files_in ?T). 0 \<le> st_size f"
    by (simp add: example_defs)
  have o: "stdout (snd (main ascii_only ?T)) =
     [''File ./a.cs: 10 KiB, so far at: 10 KiB'', ''File ./lib/b.cs: 5 KiB, so far at: 15 KiB'']"
    by (simp add: run_defs example_defs kib_evals)
  then have i: "Suc 0 < length (stdout (snd (main ascii_only ?T)))"
    by simp
  have r: "rows 0 (traversal ?T) = [(''./a.cs'', 10240, 10240), (''./lib/b.cs'', 5120, 15360)]"
    by (simp add: run_defs example_defs)
  from running_total_non_decreasing [OF h i] h show ?thesis
    unfolding r o by (simp add: list_all_iff)
qed

text \<open>
  C7. A directory with exactly the two files \<^verbatim>\<open>a.cs\<close> (10240 bytes) and
  \<^verbatim>\<open>b.cs\<close> (5120 bytes), both starting with the marker, gives two lines in either
  order of enumeration and ends at 15 KiB; the running totals are 10 KiB then 15 KiB when
  \<^verbatim>\<open>a.cs\<close> comes first, and 5 KiB then 15 KiB when \<^verbatim>\<open>b.cs\<close> comes first.
\<close>

theorem two_files_both_orders:
  assumes "name a = ''a.cs''" and "st_size a = 10240"
    and "opened a = Inr ta" and "startswith ta marker"
    and "name b = ''b.cs''" and "st_size b = 5120"
    and "opened b = Inr tb" and "startswith tb marker"
  shows "main enc [File a, File b] =
           (None, \<lparr>size_acc = 15360,
                   stdout = [''File ./a.cs: 10 KiB, so far at: 10 KiB'',
                             ''File ./b.cs: 5 KiB, so far at: 15 KiB'']\<rparr>) \<and>
         main enc [File b, File a] =
           (None, \<lparr>size_acc = 15360,
                   stdout = [''File ./b.cs: 5 KiB, so far at: 5 KiB'',
                             ''File ./a.cs: 10 KiB, so far at: 15 KiB'']\<rparr>)"
proof -
  have "str_in marker (take 20 ta)" "str_in marker (take 20 tb)"
    using assms by (simp_all add: startswith_marker_prefix)
  with assms show ?thesis
    by (simp add: main_def initial_def visit_file_def line_of_def path_join_def endswith_def
        startswith_def kib_evals print_def encodable_def is_ascii_def)
qed

theorem two_files_both_orders_witness:
  "name a_cs = ''a.cs'' \<and> st_size a_cs = 10240 \<and>
   opened a_cs = Inr (''///Countable'' @ replicate 10228 (CHR ''x'')) \<and>
   startswith (''///Countable'' @ replicate 10228 (CHR ''x'')) marker \<and>
   name b_cs = ''b.cs'' \<and> st_size b_cs = 5120 \<and>
   opened b_cs = Inr (''///Countable'' @ replicate 5108 (CHR ''x'')) \<and>
   startswith (''///Countable'' @ replicate 5108 (CHR ''x'')) marker \<and>
   main ascii_only [File a_cs, File b_cs] =
     (None, \<lparr>size_acc = 15360,
             stdout = [''File ./a.cs: 10 KiB, so far at: 10 KiB'',
                       ''File ./b.cs: 5 KiB, so far at: 15 KiB'']\<rparr>) \<and>
   main ascii_only [File b_cs, File a_cs] =
     (None, \<lparr>size_acc = 15360,
             stdout = [''File ./b.cs: 5 KiB, so far at: 5 KiB'',
                       ''File ./a.cs: 10 KiB, so far at: 15 KiB'']\<rparr>)"
proof -
  have a: "name a_cs = ''a.cs''" "st_size a_cs = 10240"
    "opened a_cs = Inr (''///Countable'' @ replicate 10228 (CHR ''x''))"
    "startswith (''///Countable'' @ replicate 10228 (CHR ''x'')) marker"
    by (simp_all add: a_cs_def startswith_def marker_def)
  have b: "name b_cs = ''b.cs''" "st_size b_cs = 5120"
    "opened b_cs = Inr (''///Countable'' @ replicate 5108 (CHR ''x''))"
    "startswith (''///Countable'' @ replicate 5108 (CHR ''x'')) marker"
    by (simp_all add: b_cs_def startswith_def marker_def)
  from two_files_both_orders [OF a b, of ascii_only] a b show ?thesis by blast
qed

theorem b_first_totals_counterexample:
  "stdout (snd (main ascii_only [File b_cs, File a_cs])) =
     [''File ./b.cs: 5 KiB, so far at: 5 KiB'', ''File ./a.cs: 10 KiB, so far at: 15 KiB'']"
  by (simp add: run_defs example_defs kib_evals)

text \<open>
  C8. The test of the extension distinguishes case: a file whose name ends with
  \<^verbatim>\<open>.CS\<close>, \<^verbatim>\<open>.Cs\<close> or \<^verbatim>\<open>.cS\<close> does not end with \<^verbatim>\<open>.cs\<close> and is
  never counted, whatever its content.
\<close>

theorem extension_case_sensitive:
  assumes "endswith (name f) ''.CS'' \<or> endswith (name f) ''.Cs'' \<or> endswith (name f) ''.cS''"
  shows "\<not> endswith (name f) ''.cs'' \<and> visit_file enc d f s = (None, s)"
proof -
  have "\<not> endswith (name f) ''.cs''"
    using assms endswith_same_length [of "name f" "''.cs''"] by fastforce
  then show ?thesis by (simp add: visit_file_def)
qed

theorem extension_case_sensitive_witness:
  "endswith (name upper_cs) ''.CS'' \<and> opened upper_cs = Inr ''///Countable'' \<and>
   \<not> endswith (name upper_cs) ''.cs'' \<and> visit_file ascii_only ''.'' upper_cs initial = (None, initial)"
proof -
  have h: "endswith (name upper_cs) ''.CS''"
    by (simp add: upper_cs_def endswith_def)
  then have "endswith (name upper_cs) ''.CS'' \<or> endswith (name upper_cs) ''.Cs'' \<or>
      endswith (name upper_cs) ''.cS''"
    by simp
  from extension_case_sensitive [OF this, of ascii_only "''.''" initial] h show ?thesis
    by (simp add: upper_cs_def)
qed



text \<open>
  C10. The line number \<open>k\<close> of the output (from 0) is the line of the matched file
  number \<open>k\<close> of the traversal, and the running total it shows is, to two significant
  figures in KiB, the exact sum of the sizes of the matched files up to that one. The
  accumulator grows by the size of a matched file just before the line of that file is
  printed: after a run that raises no exception it is the sum of the sizes of the matched
  files reached, each once; at the end of any run it is the sum for the lines printed,
  or that sum and the size of the next matched file when the run ended on the line of
  that file (it could not be formatted or printed).
\<close>

theorem kth_line_total:
  "(\<forall>k. k < length (stdout (snd (main enc cwd))) \<longrightarrow>
      (case matched_files (traversal cwd) ! k of
         (d, f) \<Rightarrow>
           \<exists>a b. kib_2g (st_size f) = Inr a \<and>
                 kib_2g (sum_list (take (Suc k) (sizes (matched_files (traversal cwd))))) = Inr b \<and>
                 two_sig_figs b (sum_list (take (Suc k) (sizes (matched_files (traversal cwd))))) \<and>
                 stdout (snd (main enc cwd)) ! k =
                   ''File '' @ path_join d (name f) @ '': '' @ a @ '' KiB, so far at: '' @ b @ '' KiB'')) \<and>
   (fst (main enc cwd) = None \<longrightarrow>
      length (stdout (snd (main enc cwd))) = length (matched_files (traversal cwd)) \<and>
      size_acc (snd (main enc cwd)) = sum_list (sizes (matched_files (traversal cwd)))) \<and>
   (size_acc (snd (main enc cwd)) =
      sum_list (take (length (stdout (snd (main enc cwd)))) (sizes (matched_files (traversal cwd)))) \<or>
    fst (main enc cwd) \<noteq> None \<and>
    size_acc (snd (main enc cwd)) =
      sum_list (take (Suc (length (stdout (snd (main enc cwd))))) (sizes (matched_files (traversal cwd)))))"
proof -
  let ?out = "stdout (snd (main enc cwd))"
  let ?M = "matched_files (traversal cwd)"
  let ?R = "rows 0 (traversal cwd)"
  have "case ?M ! k of (d, f) \<Rightarrow>
          \<exists>a b. kib_2g (st_size f) = Inr a \<and>
                kib_2g (sum_list (take (Suc k) (sizes ?M))) = Inr b \<and>
                two_sig_figs b (sum_list (take (Suc k) (sizes ?M))) \<and>
                ?out ! k = ''File '' @ path_join d (name f) @ '': '' @ a @ '' KiB, so far at: '' @ b @ '' KiB''"
    if k: "k < length ?out" for k
  proof -
    from k main_lines_le [of enc cwd] have km: "k < length ?M" by simp
    have "case ?R ! k of (p, sz, tot) \<Rightarrow> line_of p sz tot = Inr (?out ! k)"
      using main_lines [of enc cwd] k by (auto simp: list_all2_conv_all_nth)
    then show ?thesis
      by (auto simp: rows_nth [OF km] line_of_shown split: prod.splits)
  qed
  with main_size [of enc cwd] main_complete [of enc cwd] main_size_complete [of enc cwd]
  show ?thesis by blast
qed

theorem kth_line_total_witness:
  "Suc 0 < length (stdout (snd (main ascii_only [File a_cs, Dir ''lib'' [File b_cs, File x_txt], File late_cs]))) \<and>
   matched_files (traversal [File a_cs, Dir ''lib'' [File b_cs, File x_txt], File late_cs]) =
     [(''.'', a_cs), (''./lib'', b_cs)] \<and>
   kib_2g (10240 + 5120) = Inr ''15'' \<and>
   stdout (snd (main ascii_only [File a_cs, Dir ''lib'' [File b_cs, File x_txt], File late_cs])) ! Suc 0 =
     ''File ./lib/b.cs: 5 KiB, so far at: 15 KiB'' \<and>
   fst (main ascii_only [File a_cs, Dir ''lib'' [File b_cs, File x_txt], File late_cs]) = None \<and>
   size_acc (snd (main ascii_only [File a_cs, Dir ''lib'' [File b_cs, File x_txt], File late_cs])) =
     sum_list (sizes (matched_files (traversal [File a_cs, Dir ''lib'' [File b_cs, File x_txt], File late_cs]))) \<and>
   size_acc (snd (main ascii_only [File a_cs, Dir ''lib'' [File b_cs, File x_txt], File late_cs])) = 10240 + 5120"
proof -
  let ?T = "[File a_cs, Dir ''lib'' [File b_cs, File x_txt], File late_cs]"
  have o: "stdout (snd (main ascii_only ?T)) =
     [''File ./a.cs: 10 KiB, so far at: 10 KiB'', ''File ./lib/b.cs: 5 KiB, so far at: 15 KiB'']"
    by (simp add: run_defs example_defs kib_evals)
  then have i: "Suc 0 < length (stdout (snd (main ascii_only ?T)))"
    by simp
  have m: "matched_files (traversal ?T) = [(''.'', a_cs), (''./lib'', b_cs)]"
    by (simp add: run_defs example_defs)
  have e: "fst (main ascii_only ?T) = None"
    by (simp add: run_defs example_defs kib_evals)
  have v: "size_acc (snd (main ascii_only ?T)) = 10240 + 5120"
    by (simp add: run_defs example_defs kib_evals)
  from kth_line_total [of ascii_only ?T] e
  have "size_acc (snd (main ascii_only ?T)) = sum_list (sizes (matched_files (traversal ?T)))"
    by blast
  with i m e v o show ?thesis
    by (simp add: kib_evals)
qed

theorem size_without_line_counterexample:
  "matched y_cs \<and>
   main ascii_only [File y_cs] = (Some UnicodeEncodeError, \<lparr>size_acc = 12, stdout = []\<rparr>)"
  by (simp add: run_defs example_defs kib_evals)

end
